theory Spec2Isabelle
  imports Main "HOL-Library.Word" "HOL-Library.AList"
begin

chapter \<open>The program\<close>

section \<open>JavaScript strings\<close>

text \<open>
  A JavaScript string is a sequence of UTF-16 code units; \<open>length\<close>, \<open>indexOf\<close> and
  \<open>slice\<close> count code units. A code unit is a 16-bit word, a string a list of them.
  \<open>js\<close> writes an ASCII literal of the source as such a list.

  A parameter that the source tests with \<open>typeof x !== 'string'\<close> or \<open>!x\<close> is a
  \<open>jsstring option\<close>: \<open>None\<close> is an absent value (\<open>undefined\<close>, \<open>null\<close>).
\<close>

type_synonym jschar = "16 word"

type_synonym jsstring = "jschar list"

definition js :: "string \<Rightarrow> jsstring" where
  "js s = map of_char s"

definition falsy :: "jsstring option \<Rightarrow> bool" where
  \<comment> \<open>\<open>!v\<close>: an absent value and the empty string are falsy\<close>
  "falsy v = (case v of None \<Rightarrow> True | Some s \<Rightarrow> s = [])"

definition or_empty :: "jsstring option \<Rightarrow> jsstring" where
  \<comment> \<open>\<open>v || ''\<close>\<close>
  "or_empty v = (case v of None \<Rightarrow> [] | Some s \<Rightarrow> s)"

subsection \<open>\<open>String.prototype.replace\<close> with a one-character global pattern\<close>

definition replace_all_unit :: "jschar \<Rightarrow> jsstring \<Rightarrow> jsstring \<Rightarrow> jsstring" where
  \<comment> \<open>\<open>s.replace(/c/g, r)\<close> for a replacement text \<open>r\<close> without \<open>$\<close>\<close>
  "replace_all_unit c r s = concat (map (\<lambda>x. if x = c then r else [x]) s)"

subsection \<open>The regular expression \<open>/<base[^>]*>/gi\<close>\<close>

text \<open>
  With flag \<open>i\<close> and without flag \<open>u\<close>, a pattern letter matches a code unit with the
  same upper case, and a code unit outside ASCII never matches an ASCII letter. So the
  pattern letter \<open>b\<close> matches \<open>b\<close> and \<open>B\<close> only; \<open><\<close> and \<open>>\<close> have no case.
\<close>

definition ci_eq :: "jschar \<Rightarrow> jschar \<Rightarrow> bool" where
  \<comment> \<open>code unit \<open>c\<close> matches the pattern character \<open>p\<close> (lower case or caseless ASCII)\<close>
  "ci_eq c p = (c = p \<or> (0x61 \<le> p \<and> p \<le> 0x7A \<and> c = p - 0x20))"

fun ci_prefix :: "jsstring \<Rightarrow> jsstring \<Rightarrow> bool" where
  "ci_prefix [] s = True"
| "ci_prefix (p # ps) [] = False"
| "ci_prefix (p # ps) (c # cs) = (ci_eq c p \<and> ci_prefix ps cs)"

fun upto_gt :: "jsstring \<Rightarrow> (jsstring \<times> jsstring) option" where
  \<comment> \<open>\<open>[^>]*>\<close>: the text up to and with the first \<open>>\<close>, and the rest; \<open>None\<close> without a \<open>>\<close>\<close>
  "upto_gt [] = None"
| "upto_gt (c # cs) =
     (if c = 0x3E then Some ([c], cs)
      else (case upto_gt cs of None \<Rightarrow> None | Some (m, r) \<Rightarrow> Some (c # m, r)))"

definition match_base_tag :: "jsstring \<Rightarrow> (jsstring \<times> jsstring) option" where
  \<comment> \<open>the match of \<open>/<base[^>]*>/i\<close> at the start of \<open>s\<close>: the matched text and the rest\<close>
  "match_base_tag s =
     (if ci_prefix (js ''<base'') s
      then (case upto_gt (drop 5 s) of None \<Rightarrow> None | Some (m, r) \<Rightarrow> Some (take 5 s @ m, r))
      else None)"

lemma upto_gt_length: "upto_gt s = Some (m, r) \<Longrightarrow> length r < length s"
  by (induction s arbitrary: m) (auto split: if_splits option.splits)

lemma match_base_tag_length: "match_base_tag s = Some (m, r) \<Longrightarrow> length r < length s"
  by (auto simp: match_base_tag_def split: if_splits option.splits dest!: upto_gt_length)

text \<open>
  The global scan: at each position the leftmost match is taken and the scan goes on
  after it; where no match starts, the code unit is kept. A token is a matched tag
  (\<open>Inl\<close>) or a kept code unit (\<open>Inr\<close>).
\<close>

function scan_base :: "jsstring \<Rightarrow> (jsstring + jschar) list" where
  "scan_base [] = []"
| "scan_base (c # cs) =
     (case match_base_tag (c # cs) of
        Some (m, r) \<Rightarrow> Inl m # scan_base r
      | None \<Rightarrow> Inr c # scan_base cs)"
  by pat_completeness auto
termination
  by (relation "measure length") (auto dest: match_base_tag_length)

definition remove_base_tags :: "jsstring \<Rightarrow> jsstring" where
  \<comment> \<open>\<open>s.replace(/<base[^>]*>/gi, '')\<close>\<close>
  "remove_base_tags s = concat (map (\<lambda>t. case t of Inl m \<Rightarrow> [] | Inr c \<Rightarrow> [c]) (scan_base s))"

definition base_tag_matches :: "jsstring \<Rightarrow> jsstring list" where
  \<comment> \<open>\<open>s.match(/<base[^>]*>/gi)\<close>: the base tags of \<open>s\<close>, in order\<close>
  "base_tag_matches s = concat (map (\<lambda>t. case t of Inl m \<Rightarrow> [m] | Inr c \<Rightarrow> []) (scan_base s))"

subsection \<open>\<open>toLowerCase\<close>, \<open>indexOf\<close>, \<open>slice\<close>\<close>

text \<open>
  \<open>String.prototype.toLowerCase\<close> follows the Unicode case table. The table is
  reproduced for the ASCII letters and for the two entries outside ASCII that reach into
  it: U+0130 (capital I with dot above), whose lower case is the two code units
  \<open>i\<close>, U+0307, and U+212A (Kelvin sign), whose lower case is \<open>k\<close>. Every other entry
  replaces a code unit outside ASCII by one code unit outside ASCII (a surrogate pair by a
  surrogate pair); those entries change neither the length of the string nor where the
  characters of \<open><head>\<close> stand, and are left out.
\<close>

definition lower_unit :: "jschar \<Rightarrow> jsstring" where
  "lower_unit c =
     (if 0x41 \<le> c \<and> c \<le> 0x5A then [c + 0x20]
      else if c = 0x130 then [0x69, 0x307]
      else if c = 0x212A then [0x6B]
      else [c])"

definition toLowerCase :: "jsstring \<Rightarrow> jsstring" where
  "toLowerCase s = concat (map lower_unit s)"

fun index_in :: "jsstring \<Rightarrow> jsstring \<Rightarrow> nat option" where
  \<comment> \<open>the first position of \<open>s\<close> at which \<open>p\<close> starts\<close>
  "index_in p [] = (if p = [] then Some 0 else None)"
| "index_in p (c # cs) =
     (if take (length p) (c # cs) = p then Some 0
      else (case index_in p cs of None \<Rightarrow> None | Some i \<Rightarrow> Some (Suc i)))"

definition indexOf :: "jsstring \<Rightarrow> jsstring \<Rightarrow> int \<Rightarrow> int" where
  \<comment> \<open>\<open>s.indexOf(p, k)\<close>: the position is clamped to \<open>0 .. length s\<close>; \<open>-1\<close> when not found\<close>
  "indexOf s p k =
     (let from = min (nat k) (length s)
      in case index_in p (drop from s) of None \<Rightarrow> - 1 | Some i \<Rightarrow> int (from + i))"

definition slice :: "jsstring \<Rightarrow> int \<Rightarrow> int \<Rightarrow> jsstring" where
  \<comment> \<open>\<open>s.slice(b, e)\<close>: a negative index counts from the end\<close>
  "slice s b e =
     (let n = int (length s);
          from = (if b < 0 then max (n + b) 0 else min b n);
          to = (if e < 0 then max (n + e) 0 else min e n)
      in take (nat (to - from)) (drop (nat from) s))"

definition slice_from :: "jsstring \<Rightarrow> int \<Rightarrow> jsstring" where
  \<comment> \<open>\<open>s.slice(b)\<close>\<close>
  "slice_from s b = slice s b (int (length s))"

definition endsWith :: "jsstring \<Rightarrow> jsstring \<Rightarrow> bool" where
  "endsWith s p = (length p \<le> length s \<and> drop (length s - length p) s = p)"

section \<open>The attribute escaper\<close>

definition escapeHtmlForAttributeValue :: "jsstring option \<Rightarrow> jsstring" where
  "escapeHtmlForAttributeValue unsafe =
     (case unsafe of
        None \<Rightarrow> []
      | Some s \<Rightarrow>
          replace_all_unit 0x22 (js ''&quot;'') (replace_all_unit 0x26 (js ''&amp;'') s))"

section \<open>The base-path injector\<close>

text \<open>
  The guard \<open>!baseHrefTag || typeof rawHtml !== 'string'\<close> returns \<open>rawHtml || ''\<close>:
  the empty string for an absent markup, the markup itself otherwise.
\<close>

definition injectBaseHref :: "jsstring option \<Rightarrow> jsstring option \<Rightarrow> jsstring" where
  "injectBaseHref rawHtml baseHrefTag =
     (case (rawHtml, baseHrefTag) of
        (Some raw, Some tag) \<Rightarrow>
          if falsy baseHrefTag then or_empty rawHtml
          else
            let cleanHtml = remove_base_tags raw;
                headTagStart = indexOf (toLowerCase cleanHtml) (js ''<head>'') 0
            in if headTagStart \<noteq> - 1
               then
                 let headTagEndPos = indexOf cleanHtml (js ''>'') headTagStart
                 in if headTagEndPos \<noteq> - 1
                    then slice cleanHtml 0 (headTagEndPos + 1) @ tag
                           @ slice_from cleanHtml (headTagEndPos + 1)
                    else tag @ cleanHtml
               else tag @ cleanHtml
      | _ \<Rightarrow> or_empty rawHtml)"

text \<open>The copy inside the script of the host page (\<open>injectBaseHrefIntoString\<close>).\<close>

definition injectBaseHrefIntoString :: "jsstring option \<Rightarrow> jsstring option \<Rightarrow> jsstring" where
  "injectBaseHrefIntoString rawHtml baseTag =
     (case (rawHtml, baseTag) of
        (Some raw, Some tag) \<Rightarrow>
          if falsy baseTag then or_empty rawHtml
          else
            let cleanHtml = remove_base_tags raw;
                headTagStart = indexOf (toLowerCase cleanHtml) (js ''<head>'') 0
            in if headTagStart \<noteq> - 1
               then
                 let headTagEndPos = indexOf cleanHtml (js ''>'') headTagStart
                 in if headTagEndPos \<noteq> - 1
                    then slice cleanHtml 0 (headTagEndPos + 1) @ tag
                           @ slice_from cleanHtml (headTagEndPos + 1)
                    else tag @ cleanHtml
               else tag @ cleanHtml
      | _ \<Rightarrow> or_empty rawHtml)"

section \<open>The host: locations, virtual URLs, random numbers\<close>

text \<open>
  The editor's API is not part of the repository. What the code calls of it is a parameter
  of the model, the record \<open>host\<close>: \<open>Uri.toString\<close>, \<open>Uri.joinPath\<close>,
  \<open>webview.asWebviewUri\<close> and \<open>webview.cspSource\<close>, and from the JavaScript run time
  \<open>JSON.stringify\<close> on a string and \<open>Math.floor(Math.random() * 62)\<close>
  (\<open>random_index h i\<close> is the value of the \<open>i\<close>-th such call). A host call that the
  source wraps in \<open>try\<close> may throw: it returns \<open>Inl Thrown\<close> then.
\<close>

record uri =
  scheme :: jsstring
  authority :: jsstring
  path :: jsstring
  query :: jsstring
  fragment :: jsstring

datatype exn = Thrown

record host =
  uri_toString :: "uri \<Rightarrow> jsstring"
  joinPath :: "uri \<Rightarrow> jsstring \<Rightarrow> exn + uri"
  asWebviewUri :: "uri \<Rightarrow> exn + uri"
  cspSource :: jsstring
  json_stringify :: "jsstring \<Rightarrow> jsstring"
  random_index :: "nat \<Rightarrow> nat"

section \<open>The base-href resolver\<close>

definition getBaseHrefString :: "host \<Rightarrow> uri option \<Rightarrow> jsstring" where
  "getBaseHrefString h documentUri =
     (case documentUri of
        None \<Rightarrow> []
      | Some u \<Rightarrow>
          if scheme u \<noteq> js ''file'' then []
          else
            (case joinPath h u (js ''..'') of
               Inl e \<Rightarrow> []
             | Inr docDirUri \<Rightarrow>
                 (case asWebviewUri h docDirUri of
                    Inl e \<Rightarrow> []
                  | Inr webviewUri \<Rightarrow>
                      let href = (if endsWith (uri_toString h webviewUri) (js ''/'')
                                  then uri_toString h webviewUri
                                  else uri_toString h webviewUri @ js ''/'')
                      in js ''<base href=\"'' @ href @ js ''\">'')))"

section \<open>The host page\<close>

definition possible :: jsstring where
  "possible = js ''ABCDEFGHIJKLMNOPQRSTUVWXYZabcdefghijklmnopqrstuvwxyz0123456789''"

definition charAt :: "jsstring \<Rightarrow> nat \<Rightarrow> jsstring" where
  "charAt s i = (if i < length s then [s ! i] else [])"

definition getNonce :: "host \<Rightarrow> nat \<Rightarrow> jsstring" where
  \<comment> \<open>the 32 rounds of the loop, from the \<open>k\<close>-th random number on\<close>
  "getNonce h k = concat (map (\<lambda>i. charAt possible (random_index h (k + i))) [0..<32])"

definition join :: "jsstring \<Rightarrow> jsstring list \<Rightarrow> jsstring" where
  \<comment> \<open>\<open>Array.prototype.join\<close>\<close>
  "join sep xs = (case xs of [] \<Rightarrow> [] | x # r \<Rightarrow> x @ concat (map (\<lambda>y. sep @ y) r))"

text \<open>
  The fixed text of the page: the style sheet (\<open>styles\<close>) and the seven stretches of the
  template between its six holes (\<open>page_text_0\<close> to \<open>page_text_6\<close>).
\<close>

definition styles :: jsstring where
  "styles =
     concat
      [js ''\<newline>'',
       js ''        body, html { margin: 0; padding: 0; height: 100%; overflow: hidden; backgrou'',
       js ''nd-color: var(--vscode-editor-background); color: var(--vscode-editor-foreground); f'',
       js ''ont-family: var(--vscode-font-family, sans-serif); display: flex; flex-direction: co'',
       js ''lumn; }\<newline>'',
       js ''        .controls { padding: 8px 15px; background-color: var(--vscode-sideBar-backgr'',
       js ''ound); border-bottom: 1px solid var(--vscode-sideBar-border); flex-shrink: 0; displa'',
       js ''y: flex; gap: 15px; align-items: center; flex-wrap: wrap; }\<newline>'',
       js ''        .controls label { font-size: 12px; margin-right: -5px; white-space: nowrap; '',
       js ''}\<newline>'',
       js ''        .controls button { padding: 4px 8px; background-color: var(--vscode-button-s'',
       js ''econdaryBackground); color: var(--vscode-button-secondaryForeground); border: 1px so'',
       js ''lid var(--vscode-button-border, transparent); border-radius: 3px; cursor: pointer; f'',
       js ''ont-size: 12px; white-space: nowrap; }\<newline>'',
       js ''        .controls button:hover { background-color: var(--vscode-button-secondaryHove'',
       js ''rBackground); }\<newline>'',
       js ''        .controls button.active { background-color: var(--vscode-button-background);'',
       js '' color: var(--vscode-button-foreground); border-color: var(--vscode-button-border, t'',
       js ''ransparent); }\<newline>'',
       js ''        .controls button:disabled { opacity: 0.5; cursor: not-allowed; }\<newline>'',
       js ''        #preview-container { flex-grow: 1; overflow: auto; padding: 25px; display: f'',
       js ''lex; justify-content: center; align-items: flex-start; background-color: var(--vscod'',
       js ''e-editorWidget-background); }\<newline>'',
       js ''\<newline>'',
       js ''        /* Simple Device Frame Wrapper */\<newline>'',
       js ''        #iframe-wrapper {\<newline>'',
       js ''            flex-shrink: 0; /* Prevent shrinking in flex container */\<newline>'',
       js ''            border: 8px solid #444;\<newline>'',
       js ''            border-radius: 16px;\<newline>'',
       js ''            overflow: hidden; /* Clip iframe corners */\<newline>'',
       js ''            box-shadow: 0 8px 20px rgba(0,0,0,0.25);\<newline>'',
       js ''            background: #444; /* Color behind iframe, visible with border-radius */\<newline>'',
       js ''            transition: width 0.3s ease-in-out, height 0.3s ease-in-out;\<newline>'',
       js ''            width: 100%; /* Default: Desktop */\<newline>'',
       js ''            height: 100%;\<newline>'',
       js ''        }\<newline>'',
       js ''        #preview-frame {\<newline>'',
       js ''            display: block; /* Remove potential inline spacing */\<newline>'',
       js ''            border: none;\<newline>'',
       js ''            background-color: white;\<newline>'',
       js ''            width: 100%; /* Iframe always fills wrapper */\<newline>'',
       js ''            height: 100%;\<newline>'',
       js ''        }\<newline>'',
       js ''\<newline>'',
       js ''        /* --- Size Presets (Applied to Wrapper) --- */\<newline>'',
       js ''        /* Mobile */\<newline>'',
       js ''        #iframe-wrapper.mobile { width: 375px; height: 667px; border-width: 6px; bor'',
       js ''der-radius: 18px;}\<newline>'',
       js ''        #iframe-wrapper.mobile.landscape { width: 667px; height: 375px; }\<newline>'',
       js ''        /* Tablet */\<newline>'',
       js ''        #iframe-wrapper.tablet { width: 768px; height: 1024px; border-width: 10px; b'',
       js ''order-radius: 20px;}\<newline>'',
       js ''        #iframe-wrapper.tablet.landscape { width: 1024px; height: 768px; }\<newline>'',
       js ''        /* Laptop */\<newline>'',
       js ''        #iframe-wrapper.laptop { width: 1366px; height: 768px; border-width: 10px; b'',
       js ''order-radius: 12px;}\<newline>'',
       js ''        #iframe-wrapper.laptop.landscape { width: 768px; height: 1366px; } /* Note: '',
       js ''Often laptops don't rotate, but we allow it */\<newline>'',
       js ''        /* Desktop (No fixed size on wrapper, relies on container) */\<newline>'',
       js ''        #iframe-wrapper.desktop { width: 100%; height: 100%; max-width: 1920px; bord'',
       js ''er: none; border-radius: 0; box-shadow: none; background: transparent; }\<newline>'',
       js ''    '']"

definition page_text_0 :: jsstring where
  "page_text_0 =
     concat
      [js ''<!DOCTYPE html>\<newline>'',
       js ''<html lang=\"en\">\<newline>'',
       js ''<head>\<newline>'',
       js ''    <meta charset=\"UTF-8\">\<newline>'',
       js ''    <meta http-equiv=\"Content-Security-Policy\" content=\"'']"

definition page_text_1 :: jsstring where
  "page_text_1 =
     concat
      [js ''\">\<newline>'',
       js ''    <meta name=\"viewport\" content=\"width=device-width, initial-scale=1.0\">\<newline>'',
       js ''    <title>Yi HTML Preview</title>\<newline>'',
       js ''    <style nonce=\"'']"

definition page_text_2 :: jsstring where
  "page_text_2 =
     js ''\">''"

definition page_text_3 :: jsstring where
  "page_text_3 =
     concat
      [js ''</style>\<newline>'',
       js ''</head>\<newline>'',
       js ''<body>\<newline>'',
       js ''    <div class=\"controls\">\<newline>'',
       js ''        <label>Screen Size:</label>\<newline>'',
       js ''        <button data-size=\"mobile\" title=\"Mobile (375x667)\">Mobile</button>\<newline>'',
       js ''        <button data-size=\"tablet\" title=\"Tablet (768x1024)\">Tablet</button>\<newline>'',
       js ''        <button data-size=\"laptop\" title=\"Laptop (1366x768)\">Laptop</button>\<newline>'',
       js ''        <button data-size=\"desktop\" class=\"active\" title=\"Desktop (Resizable)\">Deskt'',
       js ''op</button>\<newline>'',
       js ''        <span style=\"margin-left: 10px;\"></span> <button id=\"toggleOrientation\" titl'',
       js ''e=\"Toggle Orientation (Portrait/Landscape)\" disabled>'',
       [0xf0, 0x178, 0x201d, 0x201e],
       js '' Orientation</button>\<newline>'',
       js ''    </div>\<newline>'',
       js ''    <div id=\"preview-container\">\<newline>'',
       js ''         <div id=\"iframe-wrapper\" class=\"desktop\">\<newline>'',
       js ''             <iframe id=\"preview-frame\"\<newline>'',
       js ''                     sandbox=\"allow-scripts allow-same-origin allow-forms allow-poin'',
       js ''ter-lock allow-popups allow-modals\"\<newline>'',
       js ''                     srcdoc=\"'']"

definition page_text_4 :: jsstring where
  "page_text_4 =
     concat
      [js ''\">\<newline>'',
       js ''            </iframe>\<newline>'',
       js ''         </div>\<newline>'',
       js ''    </div>\<newline>'',
       js ''    <script nonce=\"'']"

definition page_text_5 :: jsstring where
  "page_text_5 =
     concat
      [js ''\">\<newline>'',
       js ''        (function() {\<newline>'',
       js ''            const vscode = acquireVsCodeApi();\<newline>'',
       js ''            const iframe = document.getElementById('preview-frame');\<newline>'',
       js ''            const iframeWrapper = document.getElementById('iframe-wrapper'); // Get '',
       js ''wrapper\<newline>'',
       js ''            const sizeButtons = document.querySelectorAll('.controls button[data-siz'',
       js ''e]');\<newline>'',
       js ''            const orientationButton = document.getElementById('toggleOrientation');\<newline>'',
       js ''            const container = document.getElementById('preview-container');\<newline>'',
       js ''\<newline>'',
       js ''            let currentSize = 'desktop';\<newline>'',
       js ''            let isLandscape = false;\<newline>'',
       js ''            const baseHrefTagString = '']"

definition page_text_6 :: jsstring where
  "page_text_6 =
     concat
      [js '';\<newline>'',
       js ''\<newline>'',
       js ''            if (!iframe || !iframeWrapper || !orientationButton) {\<newline>'',
       js ''                console.error('Preview UI elements not found!');\<newline>'',
       js ''                return;\<newline>'',
       js ''            }\<newline>'',
       js ''\<newline>'',
       js ''            // Helper function inside the script to inject base href (mirrors outer '',
       js ''logic)\<newline>'',
       js ''            function injectBaseHrefIntoString(rawHtml, baseTag) {\<newline>'',
       js ''                if (!baseTag || typeof rawHtml !== 'string') {\<newline>'',
       js ''                    return rawHtml || '',
       [0x27, 0x27],
       js '';\<newline>'',
       js ''                }\<newline>'',
       js ''                const cleanHtml = rawHtml.replace(/<base[^>]*>/gi, '',
       [0x27, 0x27],
       js '');\<newline>'',
       js ''                const headTagStart = cleanHtml.toLowerCase().indexOf('<head>');\<newline>'',
       js ''                if (headTagStart !== -1) {\<newline>'',
       js ''                    const headTagEndPos = cleanHtml.indexOf('>', headTagStart);\<newline>'',
       js ''                    if (headTagEndPos !== -1) {\<newline>'',
       js ''                        return cleanHtml.slice(0, headTagEndPos + 1) + baseTag + cle'',
       js ''anHtml.slice(headTagEndPos + 1);\<newline>'',
       js ''                    }\<newline>'',
       js ''                }\<newline>'',
       js ''                 return baseTag + cleanHtml; // Fallback prepend\<newline>'',
       js ''            }\<newline>'',
       js ''\<newline>'',
       js ''            function updateOrientationButtonState() {\<newline>'',
       js ''                orientationButton.disabled = (currentSize === 'desktop');\<newline>'',
       js ''                // Update button text/icon (optional)\<newline>'',
       js ''                // orientationButton.textContent = isLandscape ? '',
       [0x27, 0xf0, 0x178, 0x201d, 0x201e],
       js '' Landscape' : '',
       [0x27, 0xf0, 0x178, 0x201d, 0x201e],
       js '' Portrait';\<newline>'',
       js ''            }\<newline>'',
       js ''\<newline>'',
       js ''            // Listener for messages from the extension (e.g., HTML updates)\<newline>'',
       js ''            window.addEventListener('message', event => {\<newline>'',
       js ''                const message = event.data;\<newline>'',
       js ''                switch (message.command) {\<newline>'',
       js ''                    case 'updateContent':\<newline>'',
       js ''                        try {\<newline>'',
       js ''                            const rawUpdateHtml = message.html;\<newline>'',
       js ''                            const htmlWithBase = injectBaseHrefIntoString(rawUpdateH'',
       js ''tml, baseHrefTagString);\<newline>'',
       js ''                            // Assign raw HTML directly to srcdoc property\<newline>'',
       js ''                            iframe.srcdoc = htmlWithBase;\<newline>'',
       js ''                        } catch (e) {\<newline>'',
       js ''                             console.error(\"Error updating srcdoc:\", e);\<newline>'',
       js ''                             iframe.srcdoc = '<html><body>Error updating preview con'',
       js ''tent. Check console.</body></html>';\<newline>'',
       js ''                        }\<newline>'',
       js ''                        break;\<newline>'',
       js ''                 }\<newline>'',
       js ''            });\<newline>'',
       js ''\<newline>'',
       js ''            // Add listeners to the screen size control buttons\<newline>'',
       js ''            sizeButtons.forEach(button => {\<newline>'',
       js ''                button.addEventListener('click', () => {\<newline>'',
       js ''                    const size = button.getAttribute('data-size');\<newline>'',
       js ''                    if (size && size !== currentSize) {\<newline>'',
       js ''                        currentSize = size;\<newline>'',
       js ''                        isLandscape = false; // Reset orientation when changing size'',
       js ''\<newline>'',
       js ''                        sizeButtons.forEach(btn => btn.classList.remove('active'));\<newline>'',
       js ''                        button.classList.add('active');\<newline>'',
       js ''\<newline>'',
       js ''                        // Apply size class to wrapper, remove orientation class\<newline>'',
       js ''                        iframeWrapper.className = ' '; // Clear existing classes fir'',
       js ''st\<newline>'',
       js ''                        iframeWrapper.classList.add(size);\<newline>'',
       js ''\<newline>'',
       js ''                        // Adjust container alignment\<newline>'',
       js ''                        if (size === 'desktop') {\<newline>'',
       js ''                            container.style.alignItems = 'stretch';\<newline>'',
       js ''                        } else {\<newline>'',
       js ''                            container.style.alignItems = 'flex-start';\<newline>'',
       js ''                        }\<newline>'',
       js ''                        updateOrientationButtonState(); // Update button enabled sta'',
       js ''te\<newline>'',
       js ''                    }\<newline>'',
       js ''                });\<newline>'',
       js ''            });\<newline>'',
       js ''\<newline>'',
       js ''             // Add listener for orientation button\<newline>'',
       js ''             orientationButton.addEventListener('click', () => {\<newline>'',
       js ''                if (currentSize === 'desktop') return; // Should be disabled, but do'',
       js ''uble check\<newline>'',
       js ''\<newline>'',
       js ''                isLandscape = !isLandscape;\<newline>'',
       js ''                if (isLandscape) {\<newline>'',
       js ''                    iframeWrapper.classList.add('landscape');\<newline>'',
       js ''                } else {\<newline>'',
       js ''                    iframeWrapper.classList.remove('landscape');\<newline>'',
       js ''                }\<newline>'',
       js ''                updateOrientationButtonState(); // Update text/icon if needed\<newline>'',
       js ''            });\<newline>'',
       js ''\<newline>'',
       js ''\<newline>'',
       js ''            // Set initial container alignment and button state\<newline>'',
       js ''            if (currentSize === 'desktop') {\<newline>'',
       js ''                 container.style.alignItems = 'stretch';\<newline>'',
       js ''            } else {\<newline>'',
       js ''                 container.style.alignItems = 'flex-start';\<newline>'',
       js ''            }\<newline>'',
       js ''            updateOrientationButtonState(); // Set initial button state\<newline>'',
       js ''\<newline>'',
       js ''\<newline>'',
       js ''        }());\<newline>'',
       js ''    </script>\<newline>'',
       js ''</body>\<newline>'',
       js ''</html>'']"

definition getWebviewHtml :: "host \<Rightarrow> nat \<Rightarrow> jsstring \<Rightarrow> uri option \<Rightarrow> jsstring" where
  \<comment> \<open>\<open>k\<close>: how many random numbers were drawn before the call\<close>
  "getWebviewHtml h k rawUserHtml documentUri =
     (let nonce = getNonce h k;
          baseHrefTagString = getBaseHrefString h documentUri;
          initialHtmlWithBase = injectBaseHref (Some rawUserHtml) (Some baseHrefTagString);
          escapedForInitialSrcdocAttribute =
            escapeHtmlForAttributeValue (Some initialHtmlWithBase);
          csp = join (js ''; '')
            [js ''default-src 'none'' @ [0x27],
             js ''style-src '' @ cspSource h @ js '' 'unsafe-inline' https: data:'',
             js ''font-src '' @ cspSource h @ js '' https: data:'',
             js ''img-src '' @ cspSource h @ js '' https: data:'',
             js ''script-src 'nonce-'' @ nonce @ [0x27] @ js '' 'unsafe-inline' ''
               @ cspSource h @ js '' https:'',
             js ''frame-src 'self' data: blob: '' @ cspSource h,
             js ''connect-src 'none'' @ [0x27]]
      in page_text_0 @ csp @ page_text_1 @ nonce @ page_text_2 @ styles @ page_text_3
           @ escapedForInitialSrcdocAttribute @ page_text_4 @ nonce @ page_text_5
           @ json_stringify h baseHrefTagString @ page_text_6)"

section \<open>The extension as a state machine\<close>

text \<open>
  The extension runs on one thread, on events of the editor. Its state is the two
  module variables \<open>previewPanels\<close> (a \<open>Map\<close>, here the list of its entries in insertion
  order) and \<open>updateTimeout\<close>; the rest of \<open>state\<close> is the editor's: the \<open>TextDocument\<close>
  objects (\<open>documents\<close>, by object identity; a closed document stays an object), the open
  ones (\<open>textDocuments\<close>), the panels that are not disposed (\<open>panels\<close>), the pending
  timeouts with the panel and the document their callback captured, the clock in
  milliseconds, the count of random numbers drawn, and the calls of the editor's API made
  so far (\<open>trace\<close>). Of a panel the model keeps what the code reads or sets (not its
  title, column and resource roots). \<open>deactivate\<close>, which ends the life of the extension,
  is not part of the model.
\<close>

type_synonym panel_id = nat

type_synonym doc_id = nat

type_synonym timer_id = nat

record document =
  doc_uri :: uri
  languageId :: jsstring
  getText :: jsstring

record panel =
  viewType :: jsstring
  webview_html :: jsstring
  visible :: bool
  onDidDispose :: "jsstring option"
  onDidChangeViewState :: "jsstring option"

record message =
  command :: jsstring
  html :: jsstring

datatype effect =
    ShowInformationMessage jsstring
  | ShowErrorMessage jsstring
  | CreateWebviewPanel panel_id jsstring
  | Reveal panel_id
  | SetHtml panel_id jsstring
  | PostMessage panel_id message
  | Dispose panel_id

record state =
  previewPanels :: "(jsstring \<times> panel_id) list"
  updateTimeout :: "timer_id option"
  documents :: "doc_id \<rightharpoonup> document"
  textDocuments :: "doc_id list"
  next_document :: doc_id
  panels :: "panel_id \<rightharpoonup> panel"
  next_panel :: panel_id
  timers :: "(timer_id \<times> nat \<times> panel_id \<times> doc_id) list"
  next_timer :: timer_id
  now :: nat
  random_calls :: nat
  trace :: "effect list"

definition init :: state where
  \<comment> \<open>after \<open>activate\<close>\<close>
  "init = \<lparr>previewPanels = [], updateTimeout = None, documents = Map.empty,
            textDocuments = [], next_document = 0, panels = Map.empty, next_panel = 0,
            timers = [], next_timer = 0, now = 0, random_calls = 0, trace = []\<rparr>"

definition emit :: "effect \<Rightarrow> state \<Rightarrow> state" where
  "emit e s = s\<lparr>trace := trace s @ [e]\<rparr>"

definition documentKey :: "host \<Rightarrow> document \<Rightarrow> jsstring" where
  \<comment> \<open>\<open>document.uri.toString()\<close>\<close>
  "documentKey h doc = uri_toString h (doc_uri doc)"

subsection \<open>The update dispatcher\<close>

text \<open>
  Reading \<open>panel.webview\<close> of a disposed panel throws; nothing was changed by then.
\<close>

definition updateWebviewContent ::
  "host \<Rightarrow> panel_id \<Rightarrow> doc_id \<Rightarrow> bool \<Rightarrow> state \<Rightarrow> exn + state" where
  "updateWebviewContent h panel d forceHtmlReset s =
     (case documents s d of
        None \<Rightarrow> Inl Thrown
      | Some doc \<Rightarrow>
          let htmlContent = getText doc
          in (case panels s panel of
                None \<Rightarrow> Inl Thrown
              | Some p \<Rightarrow>
                  if forceHtmlReset \<or> falsy (Some (webview_html p))
                  then
                    let page = getWebviewHtml h (random_calls s) htmlContent (Some (doc_uri doc))
                    in Inr (emit (SetHtml panel page)
                         (s\<lparr>panels := (panels s)(panel \<mapsto> p\<lparr>webview_html := page\<rparr>),
                            random_calls := random_calls s + 32\<rparr>))
                  else
                    Inr (emit (PostMessage panel
                                \<lparr>command = js ''updateContent'', html = htmlContent\<rparr>) s)))"

subsection \<open>Panels\<close>

definition createWebviewPanel :: "jsstring \<Rightarrow> state \<Rightarrow> panel_id \<times> state" where
  "createWebviewPanel vt s =
     (next_panel s,
      emit (CreateWebviewPanel (next_panel s) vt)
        (s\<lparr>panels := (panels s)(next_panel s \<mapsto>
               \<lparr>viewType = vt, webview_html = [], visible = True,
                onDidDispose = None, onDidChangeViewState = None\<rparr>),
           next_panel := Suc (next_panel s)\<rparr>))"

definition reveal :: "panel_id \<Rightarrow> state \<Rightarrow> exn + state" where
  "reveal panel s =
     (case panels s panel of None \<Rightarrow> Inl Thrown | Some p \<Rightarrow> Inr (emit (Reveal panel) s))"

definition register_listeners :: "panel_id \<Rightarrow> jsstring \<Rightarrow> state \<Rightarrow> state" where
  \<comment> \<open>\<open>panel.onDidDispose(...)\<close> and \<open>panel.onDidChangeViewState(...)\<close>; both callbacks
      capture \<open>documentUriString\<close>\<close>
  "register_listeners panel documentUriString s =
     (case panels s panel of
        None \<Rightarrow> s
      | Some p \<Rightarrow>
          s\<lparr>panels := (panels s)(panel \<mapsto>
               p\<lparr>onDidDispose := Some documentUriString,
                 onDidChangeViewState := Some documentUriString\<rparr>)\<rparr>)"

definition dispose :: "panel_id \<Rightarrow> state \<Rightarrow> state" where
  \<comment> \<open>\<open>panel.dispose()\<close>, or the user closes the panel: the panel is gone and its
      \<open>onDidDispose\<close> listener runs, \<open>previewPanels.delete(documentUriString)\<close>\<close>
  "dispose panel s =
     (case panels s panel of
        None \<Rightarrow> s
      | Some p \<Rightarrow>
          let s1 = emit (Dispose panel) (s\<lparr>panels := (panels s)(panel := None)\<rparr>)
          in (case onDidDispose p of
                None \<Rightarrow> s1
              | Some documentUriString \<Rightarrow>
                  s1\<lparr>previewPanels := AList.delete documentUriString (previewPanels s1)\<rparr>))"

subsection \<open>The command and the listeners\<close>

definition showPreview :: "host \<Rightarrow> doc_id option \<Rightarrow> state \<Rightarrow> state" where
  \<comment> \<open>the callback of \<open>yi-html-preview.showPreview\<close>; \<open>editor\<close> is the document of
      \<open>activeTextEditor\<close>. An exception ends the callback where it is thrown.\<close>
  "showPreview h editor s =
     (case editor of
        None \<Rightarrow> emit (ShowInformationMessage (js ''No active HTML editor found.'')) s
      | Some d \<Rightarrow>
          (case documents s d of
             None \<Rightarrow> s
           | Some doc \<Rightarrow>
               if languageId doc \<noteq> js ''html''
               then emit (ShowErrorMessage (js ''Current file is not an HTML file.'')) s
               else
                 let documentUriString = documentKey h doc
                 in (case map_of (previewPanels s) documentUriString of
                       Some existingPanel \<Rightarrow>
                         (case reveal existingPanel s of
                            Inl e \<Rightarrow> s
                          | Inr s1 \<Rightarrow>
                              (case updateWebviewContent h existingPanel d False s1 of
                                 Inl e \<Rightarrow> s1
                               | Inr s2 \<Rightarrow> s2))
                     | None \<Rightarrow>
                         let (panel, s1) = createWebviewPanel documentUriString s;
                             s2 = s1\<lparr>previewPanels :=
                                      AList.update documentUriString panel (previewPanels s1)\<rparr>
                         in (case updateWebviewContent h panel d True s2 of
                               Inl e \<Rightarrow> s2
                             | Inr s3 \<Rightarrow> register_listeners panel documentUriString s3))))"

definition onDidChangeViewState_listener ::
  "host \<Rightarrow> panel_id \<Rightarrow> jsstring \<Rightarrow> state \<Rightarrow> state" where
  "onDidChangeViewState_listener h panel documentUriString s =
     (case panels s panel of
        None \<Rightarrow> s
      | Some p \<Rightarrow>
          if visible p
          then
            (case find (\<lambda>d. case documents s d of
                               None \<Rightarrow> False
                             | Some doc \<Rightarrow> documentKey h doc = documentUriString)
                    (textDocuments s) of
               None \<Rightarrow> s
             | Some d \<Rightarrow>
                 (case updateWebviewContent h panel d False s of
                    Inl e \<Rightarrow> s
                  | Inr s1 \<Rightarrow> s1))
          else s)"

definition clearTimeout :: "timer_id \<Rightarrow> state \<Rightarrow> state" where
  "clearTimeout t s = s\<lparr>timers := filter (\<lambda>(i, at, p, d). i \<noteq> t) (timers s)\<rparr>"

definition setTimeout :: "panel_id \<Rightarrow> doc_id \<Rightarrow> nat \<Rightarrow> state \<Rightarrow> timer_id \<times> state" where
  \<comment> \<open>\<open>setTimeout(callback, ms)\<close> for the callback that captured the panel and the document\<close>
  "setTimeout panel d ms s =
     (next_timer s,
      s\<lparr>timers := timers s @ [(next_timer s, now s + ms, panel, d)],
        next_timer := Suc (next_timer s)\<rparr>)"

definition changeDocumentSubscription :: "host \<Rightarrow> doc_id \<Rightarrow> state \<Rightarrow> state" where
  \<comment> \<open>the listener of \<open>onDidChangeTextDocument\<close>; \<open>d\<close> is \<open>event.document\<close>\<close>
  "changeDocumentSubscription h d s =
     (case documents s d of
        None \<Rightarrow> s
      | Some doc \<Rightarrow>
          (case map_of (previewPanels s) (documentKey h doc) of
             None \<Rightarrow> s
           | Some activePanel \<Rightarrow>
               if languageId doc = js ''html''
               then
                 let s1 = (case updateTimeout s of None \<Rightarrow> s | Some t \<Rightarrow> clearTimeout t s);
                     (t, s2) = setTimeout activePanel d 300 s1
                 in s2\<lparr>updateTimeout := Some t\<rparr>
               else s))"

definition timeout_callback :: "host \<Rightarrow> panel_id \<Rightarrow> doc_id \<Rightarrow> state \<Rightarrow> state" where
  \<comment> \<open>the callback given to \<open>setTimeout\<close>; when the update throws, the assignment
      \<open>updateTimeout = undefined\<close> is not reached\<close>
  "timeout_callback h activePanel d s =
     (case updateWebviewContent h activePanel d False s of
        Inl e \<Rightarrow> s
      | Inr s1 \<Rightarrow> s1\<lparr>updateTimeout := None\<rparr>)"

definition closeDocumentSubscription :: "host \<Rightarrow> doc_id \<Rightarrow> state \<Rightarrow> state" where
  \<comment> \<open>the listener of \<open>onDidCloseTextDocument\<close>\<close>
  "closeDocumentSubscription h d s =
     (case documents s d of
        None \<Rightarrow> s
      | Some doc \<Rightarrow>
          (case map_of (previewPanels s) (documentKey h doc) of
             None \<Rightarrow> s
           | Some panel \<Rightarrow> dispose panel s))"

subsection \<open>The events of the editor\<close>

text \<open>
  \<open>RunCommand\<close>: the user runs the command, with the document of the active editor, if
  any. \<open>OpenDocument\<close>, \<open>ChangeDocument\<close>, \<open>CloseDocument\<close>: the editor opens a document
  (one per location), replaces the text of an open one, closes one; then it tells the
  listeners. \<open>ClosePanel\<close>: the user closes a panel. \<open>ChangeViewState\<close>: a panel is shown
  or hidden. \<open>Elapse n\<close>: \<open>n\<close> milliseconds pass with no other event; the timeouts that
  fall due in them run, the earliest first. (A callback sets and clears no timeout, so
  the due ones are taken off the list before the callbacks run.)
\<close>

datatype event =
    RunCommand "doc_id option"
  | OpenDocument uri jsstring jsstring
  | ChangeDocument doc_id jsstring
  | CloseDocument doc_id
  | ClosePanel panel_id
  | ChangeViewState panel_id bool
  | Elapse nat

definition is_open_key :: "host \<Rightarrow> state \<Rightarrow> jsstring \<Rightarrow> bool" where
  "is_open_key h s k =
     list_ex (\<lambda>d. case documents s d of None \<Rightarrow> False | Some doc \<Rightarrow> documentKey h doc = k)
       (textDocuments s)"

definition fire_due :: "host \<Rightarrow> nat \<Rightarrow> state \<Rightarrow> state" where
  "fire_due h t s =
     (let due = filter (\<lambda>(i, at, p, d). at \<le> t) (timers s);
          s1 = s\<lparr>now := t, timers := filter (\<lambda>(i, at, p, d). \<not> at \<le> t) (timers s)\<rparr>
      in foldl (\<lambda>s' (i, at, p, d). timeout_callback h p d s') s1
           (sort_key (\<lambda>(i, at, p, d). at) due))"

fun step :: "host \<Rightarrow> event \<Rightarrow> state \<Rightarrow> state" where
  "step h (RunCommand editor) s =
     (case editor of
        None \<Rightarrow> showPreview h None s
      | Some d \<Rightarrow> if d \<in> set (textDocuments s) then showPreview h (Some d) s else s)"
| "step h (OpenDocument u lang txt) s =
     (if is_open_key h s (uri_toString h u) then s
      else s\<lparr>documents := (documents s)(next_document s \<mapsto>
                 \<lparr>doc_uri = u, languageId = lang, getText = txt\<rparr>),
             textDocuments := textDocuments s @ [next_document s],
             next_document := Suc (next_document s)\<rparr>)"
| "step h (ChangeDocument d txt) s =
     (if d \<in> set (textDocuments s)
      then (case documents s d of
              None \<Rightarrow> s
            | Some doc \<Rightarrow>
                changeDocumentSubscription h d
                  (s\<lparr>documents := (documents s)(d \<mapsto> doc\<lparr>getText := txt\<rparr>)\<rparr>))
      else s)"
| "step h (CloseDocument d) s =
     (if d \<in> set (textDocuments s)
      then closeDocumentSubscription h d (s\<lparr>textDocuments := removeAll d (textDocuments s)\<rparr>)
      else s)"
| "step h (ClosePanel p) s = dispose p s"
| "step h (ChangeViewState p v) s =
     (case panels s p of
        None \<Rightarrow> s
      | Some pn \<Rightarrow>
          let s1 = s\<lparr>panels := (panels s)(p \<mapsto> pn\<lparr>visible := v\<rparr>)\<rparr>
          in (case onDidChangeViewState pn of
                None \<Rightarrow> s1
              | Some documentUriString \<Rightarrow>
                  onDidChangeViewState_listener h p documentUriString s1))"
| "step h (Elapse n) s = fire_due h (now s + n) s"

fun run :: "host \<Rightarrow> event list \<Rightarrow> state \<Rightarrow> state" where
  "run h [] s = s"
| "run h (e # es) s = run h es (step h e s)"

chapter \<open>The notions the properties are stated with\<close>

section \<open>Escaping one code unit, decoding an attribute value\<close>

text \<open>
  The reference points of the round trip: \<open>escape_unit\<close> is the escape of one code unit
  (\<open>&\<close> to \<open>&amp;\<close>, \<open>"\<close> to \<open>&quot;\<close>), and \<open>decode_attribute\<close> reads an attribute value
  as a parser does that knows the two entities \<open>&amp;\<close> and \<open>&quot;\<close>.
\<close>

definition escape_unit :: "jschar \<Rightarrow> jsstring" where
  "escape_unit c = (if c = 0x26 then js ''&amp;'' else if c = 0x22 then js ''&quot;'' else [c])"

function decode_attribute :: "jsstring \<Rightarrow> jsstring" where
  "decode_attribute [] = []"
| "decode_attribute (c # cs) =
     (if take 5 (c # cs) = js ''&amp;'' then 0x26 # decode_attribute (drop 4 cs)
      else if take 6 (c # cs) = js ''&quot;'' then 0x22 # decode_attribute (drop 5 cs)
      else c # decode_attribute cs)"
  by pat_completeness auto
termination
  by (relation "measure length") auto

section \<open>Searching a text without regard to case\<close>

text \<open>
  The reference point of the search: \<open>ci_index_in p s\<close> is the first position of \<open>s\<close> at
  which the pattern \<open>p\<close> stands with its letters in either case. \<open>lower_pattern\<close> holds of
  a pattern of ASCII code units without capitals and without \<open>i\<close> and \<open>k\<close> (the two letters
  that code units outside ASCII turn into in lower case).
\<close>

fun ci_index_in :: "jsstring \<Rightarrow> jsstring \<Rightarrow> nat option" where
  "ci_index_in p [] = (if p = [] then Some 0 else None)"
| "ci_index_in p (c # cs) =
     (if ci_prefix p (c # cs) then Some 0
      else (case ci_index_in p cs of None \<Rightarrow> None | Some i \<Rightarrow> Some (Suc i)))"

definition lower_pattern :: "jsstring \<Rightarrow> bool" where
  "lower_pattern p = list_all (\<lambda>q. q < 0x80 \<and> \<not> (0x41 \<le> q \<and> q \<le> 0x5A) \<and> q \<noteq> 0x69 \<and> q \<noteq> 0x6B) p"

section \<open>Markup in which a base tag follows an unfinished one\<close>

text \<open>
  \<open>tag_after_open_prefix s\<close>: somewhere in \<open>s\<close> a match of the expression \<open>/<base[^>]*>/i\<close>
  starts right after \<open><\<close>, \<open><b\<close>, \<open><ba\<close> or \<open><bas\<close> (in either case), as the inner tag
  of \<open><ba<base>se>\<close> does. It is a condition on the markup the injector is given.
\<close>

fun tag_after_open_prefix :: "jsstring \<Rightarrow> bool" where
  "tag_after_open_prefix [] = False"
| "tag_after_open_prefix (c # cs) =
     (list_ex (\<lambda>k. ci_prefix (take k (js ''<base'')) (c # cs)
                    \<and> match_base_tag (drop k (c # cs)) \<noteq> None) [1, 2, 3, 4]
      \<or> tag_after_open_prefix cs)"

section \<open>Invariants of the state machine\<close>

text \<open>
  Two abbreviations: the host page built for a document in a state, and the message that
  carries the text of a document.
\<close>

definition page_of :: "host \<Rightarrow> state \<Rightarrow> document \<Rightarrow> jsstring" where
  "page_of h s doc = getWebviewHtml h (random_calls s) (getText doc) (Some (doc_uri doc))"

definition update_message :: "document \<Rightarrow> message" where
  "update_message doc = \<lparr>command = js ''updateContent'', html = getText doc\<rparr>"

definition messages_ok :: "effect list \<Rightarrow> bool" where
  "messages_ok t =
     list_all (\<lambda>e. case e of PostMessage q m \<Rightarrow> command m = js ''updateContent'' | _ \<Rightarrow> True) t"

text \<open>
  What holds between the registry and the panels in every state the extension reaches:
  the keys of the registry are distinct; a registered panel is not disposed, was created
  for its key (\<open>viewType\<close>), has the listener that deletes this key, and has a host page;
  every panel that is not disposed is registered under its \<open>viewType\<close>; and panel
  identifiers not handed out yet denote no panel.
\<close>

definition registry_ok :: "state \<Rightarrow> bool" where
  "registry_ok s =
     (distinct (map fst (previewPanels s))
      \<and> (\<forall>k p. map_of (previewPanels s) k = Some p \<longrightarrow>
            (\<exists>pn. panels s p = Some pn \<and> viewType pn = k \<and> onDidDispose pn = Some k
                  \<and> webview_html pn \<noteq> []))
      \<and> (\<forall>p pn. panels s p = Some pn \<longrightarrow> map_of (previewPanels s) (viewType pn) = Some p)
      \<and> (\<forall>p. next_panel s \<le> p \<longrightarrow> panels s p = None))"

text \<open>
  What holds of the pending timeouts in every state the extension reaches: there is at
  most one, it is the one \<open>updateTimeout\<close> names, and the panel its callback captured, if
  not disposed, was created for the identity of the document it captured. \<open>kept s s'\<close>
  collects what leaves this untouched: the timeouts and \<open>updateTimeout\<close> are the same, panels
  keep their \<open>viewType\<close> and documents their location.
\<close>

definition timers_ok :: "host \<Rightarrow> state \<Rightarrow> bool" where
  "timers_ok h s =
     ((\<forall>d. next_document s \<le> d \<longrightarrow> documents s d = None)
      \<and> (timers s = []
         \<or> (\<exists>i at p d doc. timers s = [(i, at, p, d)] \<and> updateTimeout s = Some i
               \<and> p < next_panel s \<and> documents s d = Some doc
               \<and> (\<forall>pn. panels s p = Some pn \<longrightarrow> viewType pn = documentKey h doc))))"

definition kept :: "state \<Rightarrow> state \<Rightarrow> bool" where
  "kept s s' =
     (timers s' = timers s \<and> updateTimeout s' = updateTimeout s
      \<and> next_panel s \<le> next_panel s'
      \<and> (\<forall>p pn'. p < next_panel s \<longrightarrow> panels s' p = Some pn' \<longrightarrow>
            (\<exists>pn. panels s p = Some pn \<and> viewType pn = viewType pn'))
      \<and> (\<forall>d doc. documents s d = Some doc \<longrightarrow>
            (\<exists>doc'. documents s' d = Some doc' \<and> doc_uri doc' = doc_uri doc))
      \<and> next_document s' = next_document s
      \<and> (\<forall>d. documents s d = None \<longrightarrow> documents s' d = None))"

section \<open>Edits, bursts of edits, and the updates a panel receives\<close>

text \<open>
  The vocabulary of the debounce claim. \<open>qualifies h s d p\<close>: an edit of \<open>d\<close> restarts the
  timer, for \<open>d\<close> is an open markup document whose identity the registry maps to the panel
  \<open>p\<close>. \<open>burst\<close>: edits, each followed by a pause. \<open>dispatches_to p\<close>: the updates (a full
  page or a message) that a trace sends to the panel \<open>p\<close>.
\<close>

definition qualifies :: "host \<Rightarrow> state \<Rightarrow> doc_id \<Rightarrow> panel_id \<Rightarrow> bool" where
  "qualifies h s d p =
     (d \<in> set (textDocuments s)
      \<and> (\<exists>doc. documents s d = Some doc \<and> languageId doc = js ''html''
             \<and> map_of (previewPanels s) (documentKey h doc) = Some p))"

fun burst :: "(doc_id \<times> jsstring \<times> nat) list \<Rightarrow> event list" where
  "burst [] = []"
| "burst ((d, x, g) # r) = ChangeDocument d x # Elapse g # burst r"

definition dispatches_to :: "panel_id \<Rightarrow> effect list \<Rightarrow> effect list" where
  "dispatches_to p t =
     filter (\<lambda>e. case e of SetHtml q x \<Rightarrow> q = p | PostMessage q m \<Rightarrow> q = p | _ \<Rightarrow> False) t"

section \<open>A host, documents and states for the examples\<close>

text \<open>A host and a location for the examples.\<close>

definition example_host :: host where
  "example_host =
     \<lparr>uri_toString = (\<lambda>u. scheme u @ js ''://'' @ authority u @ path u),
      joinPath = (\<lambda>u p. if p = js ''..''
                          then Inr (u\<lparr>path := rev (tl (dropWhile (\<lambda>c. c \<noteq> 0x2F) (rev (path u))))\<rparr>)
                          else Inl Thrown),
      asWebviewUri = (\<lambda>u. Inr (u\<lparr>scheme := js ''https'', authority := js ''vscode-resource''\<rparr>)),
      cspSource = js ''https://vscode-resource'',
      json_stringify = (\<lambda>s. [0x22] @ s @ [0x22]),
      random_index = (\<lambda>i. i mod 62)\<rparr>"

definition example_uri :: uri where
  "example_uri = \<lparr>scheme = js ''file'', authority = [], path = js ''/proj/page.html'',
                   query = [], fragment = []\<rparr>"

text \<open>A document and the state of the examples.\<close>

definition example_document :: document where
  "example_document = \<lparr>doc_uri = example_uri, languageId = js ''html'', getText = js ''<p>a</p>''\<rparr>"

definition example_key :: jsstring where
  "example_key = js ''file:///proj/page.html''"

definition example_state :: state where
  \<comment> \<open>\<open>page.html\<close> is open and its preview is shown\<close>
  "example_state =
     run example_host [OpenDocument example_uri (js ''html'') (js ''<p>a</p>''), RunCommand (Some 0)]
       init"

text \<open>A second document for the examples.\<close>

definition example_uri_2 :: uri where
  "example_uri_2 = \<lparr>scheme = js ''file'', authority = [], path = js ''/proj/other.html'',
                     query = [], fragment = []\<rparr>"

definition example_state_2 :: state where
  \<comment> \<open>as \<open>example_state\<close>, and \<open>other.html\<close> is open too, without a preview\<close>
  "example_state_2 =
     run example_host [OpenDocument example_uri (js ''html'') (js ''<p>a</p>''), RunCommand (Some 0),
                       OpenDocument example_uri_2 (js ''html'') (js ''<p>o</p>'')] init"

text \<open>The state in which both documents have a preview.\<close>

definition example_document_2 :: document where
  "example_document_2 = \<lparr>doc_uri = example_uri_2, languageId = js ''html'', getText = js ''<p>o</p>''\<rparr>"

definition example_key_2 :: jsstring where
  "example_key_2 = js ''file:///proj/other.html''"

definition example_state_3 :: state where
  \<comment> \<open>as \<open>example_state_2\<close>, and the preview of \<open>other.html\<close> is shown too\<close>
  "example_state_3 =
     run example_host [OpenDocument example_uri (js ''html'') (js ''<p>a</p>''), RunCommand (Some 0),
                       OpenDocument example_uri_2 (js ''html'') (js ''<p>o</p>''), RunCommand (Some 1)]
       init"

chapter \<open>The properties\<close>

section \<open>Properties of the attribute escaper\<close>

lemma replace_all_unit_append:
  "replace_all_unit c r (xs @ ys) = replace_all_unit c r xs @ replace_all_unit c r ys"
  by (simp add: replace_all_unit_def)

lemma replace_all_unit_Cons:
  "replace_all_unit c r (x # xs) = (if x = c then r else [x]) @ replace_all_unit c r xs"
  by (simp add: replace_all_unit_def)

lemma replace_all_unit_Nil: "replace_all_unit c r [] = []"
  by (simp add: replace_all_unit_def)

lemma quot_pass_amp: "replace_all_unit 0x22 (js ''&quot;'') (js ''&amp;'') = js ''&amp;''"
  by (simp add: replace_all_unit_def js_def)

lemma escape_per_unit:
  "replace_all_unit 0x22 (js ''&quot;'') (replace_all_unit 0x26 (js ''&amp;'') s)
     = concat (map escape_unit s)"
proof (induction s)
  case Nil
  show ?case by (simp add: replace_all_unit_Nil)
next
  case (Cons x s)
  show ?case
  proof (cases "x = 0x26")
    case True
    then show ?thesis
      using Cons.IH
      by (simp add: replace_all_unit_Cons replace_all_unit_append quot_pass_amp escape_unit_def)
  next
    case False
    then show ?thesis
      using Cons.IH
      by (simp add: replace_all_unit_Cons replace_all_unit_append replace_all_unit_Nil escape_unit_def)
  qed
qed

text \<open>In the other order the ampersand of \<open>&quot;\<close> would be escaped again.\<close>

lemma quote_first_double_escapes:
  "replace_all_unit 0x26 (js ''&amp;'') (replace_all_unit 0x22 (js ''&quot;'') (js ''\"''))
     = js ''&amp;quot;''"
  by (simp add: replace_all_unit_def js_def)

lemma decode_amp: "decode_attribute (js ''&amp;'' @ r) = 0x26 # decode_attribute r"
  by (simp add: js_def)

lemma decode_quot: "decode_attribute (js ''&quot;'' @ r) = 0x22 # decode_attribute r"
  by (simp add: js_def)

lemma decode_other: "c \<noteq> 0x26 \<Longrightarrow> decode_attribute (c # r) = c # decode_attribute r"
  by (auto simp: js_def)

lemma decode_escape: "decode_attribute (concat (map escape_unit s)) = s"
proof (induction s)
  case Nil
  show ?case by simp
next
  case (Cons x s)
  then show ?case
    by (simp add: escape_unit_def decode_amp decode_quot decode_other del: decode_attribute.simps)
qed

text \<open>
  Claim C6. The escaper replaces \<open>&\<close> first and \<open>"\<close> second, so every \<open>&\<close> of the input
  becomes \<open>&amp;\<close> and every \<open>"\<close> becomes \<open>&quot;\<close> (never \<open>&amp;quot;\<close>), all other code
  units are kept; and decoding the escaped text gives the input back, for every input.
\<close>

theorem escape_order_and_round_trip:
  "escapeHtmlForAttributeValue (Some s) = concat (map escape_unit s)
   \<and> escapeHtmlForAttributeValue (Some (js ''\"'')) = js ''&quot;''
   \<and> decode_attribute (escapeHtmlForAttributeValue (Some s)) = s"
proof -
  have "escapeHtmlForAttributeValue (Some (js ''\"'')) = js ''&quot;''"
    by (simp add: escapeHtmlForAttributeValue_def replace_all_unit_def js_def)
  then show ?thesis
    by (simp add: escapeHtmlForAttributeValue_def escape_per_unit decode_escape)
qed

section \<open>Properties of the regular-expression scan\<close>

lemma ci_prefix_length: "ci_prefix p s \<Longrightarrow> length p \<le> length s"
  by (induction p s rule: ci_prefix.induct) auto

lemma ci_prefix_append: "length p \<le> length xs \<Longrightarrow> ci_prefix p (xs @ ys) = ci_prefix p xs"
  by (induction p xs rule: ci_prefix.induct) auto

lemma ci_prefix_nth: "ci_prefix p s \<Longrightarrow> i < length p \<Longrightarrow> ci_eq (s ! i) (p ! i)"
proof (induction p s arbitrary: i rule: ci_prefix.induct)
  case (3 p ps c cs)
  then show ?case by (cases i) auto
qed auto

lemma upto_gt_None: "(upto_gt s = None) = (0x3E \<notin> set s)"
  by (induction s) (auto split: option.splits)

lemma upto_gt_Some:
  "upto_gt s = Some (m, r) \<Longrightarrow> s = m @ r \<and> m \<noteq> [] \<and> last m = 0x3E \<and> 0x3E \<notin> set (butlast m)"
  by (induction s arbitrary: m) (auto split: if_splits option.splits)

lemma upto_gt_append_Some: "upto_gt xs = Some (m, r) \<Longrightarrow> upto_gt (xs @ ys) = Some (m, r @ ys)"
  by (induction xs arbitrary: m) (auto split: if_splits option.splits)

lemma upto_gt_append_None:
  "upto_gt xs = None \<Longrightarrow>
   upto_gt (xs @ ys) = (case upto_gt ys of None \<Rightarrow> None | Some (m, r) \<Rightarrow> Some (xs @ m, r))"
  by (induction xs) (auto split: if_splits option.splits)

lemma base_open_no_gt: "p \<in> set (js ''<base'') \<Longrightarrow> \<not> ci_eq 0x3E p"
  by (auto simp: js_def ci_eq_def)

lemma length_base_open: "length (js ''<base'') = 5"
  by (simp add: js_def)

lemma match_base_tag_Some:
  assumes "match_base_tag s = Some (m, r)"
  shows "s = m @ r \<and> m \<noteq> [] \<and> last m = 0x3E"
proof -
  from assms obtain m' where o: "ci_prefix (js ''<base'') s" "upto_gt (drop 5 s) = Some (m', r)"
    "m = take 5 s @ m'"
    by (auto simp: match_base_tag_def split: if_splits option.splits)
  from upto_gt_Some [OF o(2)] have "drop 5 s = m' @ r" "m' \<noteq> []" "last m' = 0x3E" by auto
  then show ?thesis using o(3) by (metis append.assoc append_take_drop_id last_appendR append_is_Nil_conv)
qed

lemma match_base_tag_append_Some:
  assumes "match_base_tag xs = Some (m, r)"
  shows "match_base_tag (xs @ ys) = Some (m, r @ ys)"
proof -
  from assms obtain m' where o: "ci_prefix (js ''<base'') xs" "upto_gt (drop 5 xs) = Some (m', r)"
    "m = take 5 xs @ m'"
    by (auto simp: match_base_tag_def split: if_splits option.splits)
  have l: "5 \<le> length xs" using ci_prefix_length [OF o(1)] by (simp add: length_base_open)
  have "ci_prefix (js ''<base'') (xs @ ys)" using o(1) l by (simp add: ci_prefix_append length_base_open)
  moreover have "upto_gt (drop 5 (xs @ ys)) = Some (m', r @ ys)"
    using upto_gt_append_Some [OF o(2)] l by simp
  ultimately show ?thesis using o(3) l by (simp add: match_base_tag_def)
qed

lemma match_base_tag_append_closed:
  assumes "match_base_tag xs = None" "xs \<noteq> []" "last xs = 0x3E"
  shows "match_base_tag (xs @ ys) = None"
proof (rule ccontr)
  assume "match_base_tag (xs @ ys) \<noteq> None"
  then have p: "ci_prefix (js ''<base'') (xs @ ys)"
    by (auto simp: match_base_tag_def split: if_splits)
  have "\<not> length xs \<le> 5"
  proof
    assume le: "length xs \<le> 5"
    have i: "length xs - 1 < length (js ''<base'')" using le assms(2) by (simp add: length_base_open)
    have "ci_eq ((xs @ ys) ! (length xs - 1)) (js ''<base'' ! (length xs - 1))"
      by (rule ci_prefix_nth [OF p i])
    moreover have "(xs @ ys) ! (length xs - 1) = 0x3E"
      using assms(2,3) by (simp add: nth_append last_conv_nth)
    ultimately show False using base_open_no_gt [of "js ''<base'' ! (length xs - 1)"] i by simp
  qed
  then have l: "5 < length xs" by simp
  then have px: "ci_prefix (js ''<base'') xs" using p by (simp add: ci_prefix_append length_base_open)
  have "0x3E \<in> set (drop 5 xs)"
    using l assms(3) by (metis drop_eq_Nil last_drop last_in_set not_le)
  then have "upto_gt (drop 5 xs) \<noteq> None" by (simp add: upto_gt_None)
  then show False using assms(1) px by (auto simp: match_base_tag_def split: option.splits)
qed

lemma scan_base_append_closed:
  "xs = [] \<or> last xs = 0x3E \<Longrightarrow> scan_base (xs @ ys) = scan_base xs @ scan_base ys"
proof (induction xs rule: scan_base.induct)
  case 1
  show ?case by simp
next
  case (2 c cs)
  then have cl: "last (c # cs) = 0x3E" by simp
  show ?case
  proof (cases "match_base_tag (c # cs)")
    case None
    have n: "match_base_tag ((c # cs) @ ys) = None"
      by (rule match_base_tag_append_closed [OF None _ cl]) simp
    have "cs = [] \<or> last cs = 0x3E" using cl by (cases cs) auto
    then have "scan_base (cs @ ys) = scan_base cs @ scan_base ys" using "2.IH" None by simp
    then show ?thesis using None n by simp
  next
    case (Some mr)
    obtain m r where mr: "mr = (m, r)" by (cases mr)
    have s: "match_base_tag ((c # cs) @ ys) = Some (m, r @ ys)"
      using match_base_tag_append_Some [of "c # cs" m r ys] Some mr by simp
    have d: "c # cs = m @ r" "m \<noteq> []" using match_base_tag_Some Some mr by auto
    have "r = [] \<or> last r = 0x3E" using cl d by (cases "r = []") auto
    then have "scan_base (r @ ys) = scan_base r @ scan_base ys" using "2.IH" Some mr by simp
    then show ?thesis using Some mr s by simp
  qed
qed

lemma remove_base_tags_append_closed:
  "xs = [] \<or> last xs = 0x3E \<Longrightarrow>
   remove_base_tags (xs @ ys) = remove_base_tags xs @ remove_base_tags ys"
  by (simp add: remove_base_tags_def scan_base_append_closed)

lemma base_tag_matches_append_closed:
  "xs = [] \<or> last xs = 0x3E \<Longrightarrow>
   base_tag_matches (xs @ ys) = base_tag_matches xs @ base_tag_matches ys"
  by (simp add: base_tag_matches_def scan_base_append_closed)

lemma scan_base_whole_tag:
  assumes "match_base_tag t = Some (t, [])"
  shows "scan_base (t @ ys) = Inl t # scan_base ys"
proof -
  have "t \<noteq> []" using match_base_tag_Some [OF assms] by simp
  then obtain c cs where t: "t = c # cs" by (cases t) auto
  have "match_base_tag ((c # cs) @ ys) = Some (t, ys)"
    using match_base_tag_append_Some [OF assms, of ys] t by simp
  then show ?thesis using t by simp
qed

lemma base_tag_matches_insert:
  assumes t: "match_base_tag t = Some (t, [])"
    and cl: "pre = [] \<or> last pre = 0x3E"
    and none: "base_tag_matches (pre @ post) = []"
  shows "base_tag_matches (pre @ t @ post) = [t]"
proof -
  have "base_tag_matches pre = []" "base_tag_matches post = []"
    using none cl by (simp_all add: base_tag_matches_append_closed)
  moreover have "base_tag_matches (t @ post) = t # base_tag_matches post"
    by (simp add: base_tag_matches_def scan_base_whole_tag [OF t])
  ultimately show ?thesis using cl by (simp add: base_tag_matches_append_closed)
qed

lemma remove_base_tags_Nil: "remove_base_tags [] = []"
  by (simp add: remove_base_tags_def)

lemma remove_base_tags_Cons:
  "remove_base_tags (c # cs) =
     (case match_base_tag (c # cs) of
        Some (m, r) \<Rightarrow> remove_base_tags r
      | None \<Rightarrow> c # remove_base_tags cs)"
  by (simp add: remove_base_tags_def split: option.splits)

lemma base_open_no_gt_take:
  assumes "ci_prefix (js ''<base'') t"
  shows "0x3E \<notin> set (take 5 t)"
proof
  assume "0x3E \<in> set (take 5 t)"
  then obtain i where i: "i < length (take 5 t)" "take 5 t ! i = 0x3E"
    by (auto simp: in_set_conv_nth)
  then have i5: "i < length (js ''<base'')" by (simp add: length_base_open)
  have "ci_eq (t ! i) (js ''<base'' ! i)" by (rule ci_prefix_nth [OF assms i5])
  moreover have "t ! i = 0x3E" using i by simp
  ultimately show False using base_open_no_gt [of "js ''<base'' ! i"] i5 by simp
qed

text \<open>
  What the removal leaves. The kept code units are joined, and the joined text is not
  scanned again; it holds no base tag unless a tag stood right after an unfinished
  beginning of another one.
\<close>

lemma tag_after_open_prefix_append:
  "tag_after_open_prefix r \<Longrightarrow> tag_after_open_prefix (m @ r)"
  by (induction m) simp_all

lemma remove_base_tags_subset: "set (remove_base_tags s) \<subseteq> set s"
proof (induction s rule: scan_base.induct)
  case 1
  show ?case by (simp add: remove_base_tags_Nil)
next
  case (2 c cs)
  show ?case
  proof (cases "match_base_tag (c # cs)")
    case None
    then show ?thesis using "2.IH"(1) by (auto simp: remove_base_tags_Cons)
  next
    case (Some mr)
    obtain m r where mr: "mr = (m, r)" by (cases mr)
    have "c # cs = m @ r" using match_base_tag_Some Some mr by blast
    then have "set r \<subseteq> set (c # cs)" by (metis set_append Un_upper2)
    moreover have "set (remove_base_tags r) \<subseteq> set r" using "2.IH"(2) Some mr by simp
    moreover have "remove_base_tags (c # cs) = remove_base_tags r"
      using Some mr by (simp add: remove_base_tags_Cons)
    ultimately show ?thesis by (simp only: subset_trans)
  qed
qed

lemma ci_prefix_removed:
  "ci_prefix p (remove_base_tags cs) \<Longrightarrow>
   ci_prefix p cs \<or> (\<exists>k<length p. ci_prefix (take k p) cs \<and> match_base_tag (drop k cs) \<noteq> None)"
proof (induction p arbitrary: cs)
  case Nil
  show ?case by simp
next
  case (Cons q qs)
  show ?case
  proof (cases cs)
    case Nil
    then show ?thesis using Cons.prems by (simp add: remove_base_tags_Nil)
  next
    case (Cons d ds)
    show ?thesis
    proof (cases "match_base_tag (d # ds)")
      case (Some mr)
      then have "ci_prefix (take 0 (q # qs)) cs \<and> match_base_tag (drop 0 cs) \<noteq> None"
        using Cons by simp
      then show ?thesis by blast
    next
      case None
      then have r: "remove_base_tags cs = d # remove_base_tags ds"
        using Cons by (simp add: remove_base_tags_Cons)
      then have h: "ci_eq d q" "ci_prefix qs (remove_base_tags ds)" using Cons.prems by simp_all
      from Cons.IH [OF h(2)] show ?thesis
      proof
        assume "ci_prefix qs ds"
        then show ?thesis using h(1) Cons by simp
      next
        assume "\<exists>k<length qs. ci_prefix (take k qs) ds \<and> match_base_tag (drop k ds) \<noteq> None"
        then obtain k where k: "k < length qs" "ci_prefix (take k qs) ds"
          "match_base_tag (drop k ds) \<noteq> None" by blast
        then have "Suc k < length (q # qs) \<and> ci_prefix (take (Suc k) (q # qs)) cs
                   \<and> match_base_tag (drop (Suc k) cs) \<noteq> None"
          using h(1) Cons by simp
        then show ?thesis by blast
      qed
    qed
  qed
qed

lemma match_after_removal:
  assumes n: "match_base_tag (c # cs) = None" and t: "\<not> tag_after_open_prefix (c # cs)"
  shows "match_base_tag (c # remove_base_tags cs) = None"
proof (rule ccontr)
  assume a: "match_base_tag (c # remove_base_tags cs) \<noteq> None"
  then have p: "ci_prefix (js ''<base'') (c # remove_base_tags cs)"
    and u: "upto_gt (drop 5 (c # remove_base_tags cs)) \<noteq> None"
    by (auto simp: match_base_tag_def split: if_splits option.splits)
  have b: "js ''<base'' = 0x3C # js ''base''" by (simp add: js_def)
  from p have c: "ci_eq c 0x3C" and q: "ci_prefix (js ''base'') (remove_base_tags cs)"
    by (simp_all add: b)
  from u have "0x3E \<in> set (drop 4 (remove_base_tags cs))" by (simp add: upto_gt_None)
  then have "0x3E \<in> set (remove_base_tags cs)" by (rule in_set_dropD)
  then have gt: "0x3E \<in> set cs" using remove_base_tags_subset by blast
  from ci_prefix_removed [OF q] show False
  proof
    assume w: "ci_prefix (js ''base'') cs"
    then have pc: "ci_prefix (js ''<base'') (c # cs)" using c by (simp add: b)
    have "0x3E \<notin> set (take 5 (c # cs))" by (rule base_open_no_gt_take [OF pc])
    then have "0x3E \<notin> set (take 4 cs)" by simp
    then have "0x3E \<in> set (drop 4 cs)" using gt by (metis append_take_drop_id set_append Un_iff)
    then have "upto_gt (drop 5 (c # cs)) \<noteq> None" by (simp add: upto_gt_None)
    then show False using n pc by (auto simp: match_base_tag_def split: option.splits)
  next
    assume "\<exists>k<length (js ''base''). ci_prefix (take k (js ''base'')) cs
                \<and> match_base_tag (drop k cs) \<noteq> None"
    moreover have "length (js ''base'') = 4" by (simp add: js_def)
    ultimately obtain k where k: "k < 4" "ci_prefix (take k (js ''base'')) cs"
      "match_base_tag (drop k cs) \<noteq> None" by metis
    then have "ci_prefix (take (Suc k) (js ''<base'')) (c # cs)
               \<and> match_base_tag (drop (Suc k) (c # cs)) \<noteq> None"
      using c by (simp add: b)
    moreover have "Suc k \<in> set [1, 2, 3, 4]" using k(1) by auto
    ultimately have "tag_after_open_prefix (c # cs)"
      unfolding tag_after_open_prefix.simps list_ex_iff by blast
    then show False using t by simp
  qed
qed

lemma base_tag_matches_Cons_None:
  "match_base_tag (c # cs) = None \<Longrightarrow> base_tag_matches (c # cs) = base_tag_matches cs"
  by (simp add: base_tag_matches_def)

lemma removal_leaves_no_tag:
  "\<not> tag_after_open_prefix s \<Longrightarrow> base_tag_matches (remove_base_tags s) = []"
proof (induction s rule: scan_base.induct)
  case 1
  show ?case by (simp add: remove_base_tags_Nil base_tag_matches_def)
next
  case (2 c cs)
  show ?case
  proof (cases "match_base_tag (c # cs)")
    case None
    have "\<not> tag_after_open_prefix cs" using "2.prems" by simp
    then have ih: "base_tag_matches (remove_base_tags cs) = []" using "2.IH"(1) None by simp
    have "match_base_tag (c # remove_base_tags cs) = None"
      by (rule match_after_removal [OF None "2.prems"])
    then show ?thesis using ih None by (simp add: remove_base_tags_Cons base_tag_matches_Cons_None)
  next
    case (Some mr)
    obtain m r where mr: "mr = (m, r)" by (cases mr)
    have "c # cs = m @ r" using match_base_tag_Some Some mr by blast
    then have "\<not> tag_after_open_prefix r" using "2.prems" tag_after_open_prefix_append by metis
    then show ?thesis using "2.IH"(2) Some mr by (simp add: remove_base_tags_Cons)
  qed
qed

section \<open>Properties of the base-path injector\<close>

text \<open>
  Claim C5. The function of the extension host and its copy in the script of the host
  page return the same text for every pair of arguments, absent ones included.
\<close>

theorem inject_parity:
  "injectBaseHrefIntoString rawHtml baseTag = injectBaseHref rawHtml baseTag"
  by (simp add: injectBaseHrefIntoString_def injectBaseHref_def)

text \<open>
  Claim C9, as the code has it. The guard tests the base tag for emptiness and the
  markup only for being a string: with an empty or absent base tag, or an absent markup,
  the markup comes back unchanged (the empty string for an absent one). An empty markup
  with a non-empty base tag is not a no-op: the result is the base tag.
\<close>

theorem inject_noop_guard:
  "(falsy baseHrefTag \<or> rawHtml = None \<longrightarrow>
      injectBaseHref rawHtml baseHrefTag = or_empty rawHtml)
   \<and> (tag \<noteq> [] \<longrightarrow> injectBaseHref (Some []) (Some tag) = tag)"
proof -
  have "remove_base_tags [] = []" by (simp add: remove_base_tags_def)
  moreover have "indexOf (toLowerCase []) (js ''<head>'') 0 = - 1"
    by (simp add: toLowerCase_def indexOf_def js_def)
  ultimately have "tag \<noteq> [] \<longrightarrow> injectBaseHref (Some []) (Some tag) = tag"
    by (simp add: injectBaseHref_def falsy_def)
  moreover have "falsy baseHrefTag \<or> rawHtml = None \<longrightarrow>
      injectBaseHref rawHtml baseHrefTag = or_empty rawHtml"
    by (auto simp: injectBaseHref_def falsy_def or_empty_def split: option.splits)
  ultimately show ?thesis by simp
qed

theorem inject_noop_guard_witness:
  "injectBaseHref (Some (js ''<p>'')) (Some []) = js ''<p>''
   \<and> injectBaseHref None (Some (js ''<base>'')) = []
   \<and> injectBaseHref (Some []) (Some (js ''<base>'')) = js ''<base>''"
  using inject_noop_guard [of "Some []" "Some (js ''<p>'')" "js ''<base>''"]
    inject_noop_guard [of "Some (js ''<base>'')" None "js ''<base>''"]
  by (simp add: falsy_def or_empty_def js_def)

text \<open>
  The claim as the spec words it (a no-op whenever either input is empty) fails for the
  empty markup.
\<close>

theorem inject_empty_markup_counterexample:
  "injectBaseHref (Some []) (Some (js ''<base href=\"x/\">'')) \<noteq> []"
  by code_simp

subsection \<open>Where the tag is put\<close>

lemma index_in_Some:
  "index_in p s = Some i \<Longrightarrow> i \<le> length s \<and> take (length p) (drop i s) = p"
proof (induction s arbitrary: i)
  case Nil
  then show ?case by (auto split: if_splits)
next
  case (Cons c cs)
  show ?case
  proof (cases "take (length p) (c # cs) = p")
    case True
    then show ?thesis using Cons.prems by simp
  next
    case False
    then obtain j where j: "index_in p cs = Some j" "i = Suc j"
      using Cons.prems by (auto split: option.splits)
    then show ?thesis using Cons.IH [OF j(1)] by simp
  qed
qed

lemma indexOf_gt:
  assumes "indexOf s (js ''>'') k = e" "e \<noteq> - 1"
  shows "0 \<le> e \<and> nat e < length s \<and> s ! nat e = 0x3E"
proof -
  define fr where "fr = min (nat k) (length s)"
  from assms obtain i where i: "index_in (js ''>'') (drop fr s) = Some i" "e = int (fr + i)"
    by (auto simp: indexOf_def fr_def Let_def split: option.splits)
  from index_in_Some [OF i(1)] have t: "take 1 (drop (fr + i) s) = [0x3E]"
    by (simp add: js_def add.commute)
  then have l: "fr + i < length s" by (cases "fr + i < length s") auto
  then have "take 1 (drop (fr + i) s) = [s ! (fr + i)]"
    by (simp add: take_Suc_conv_app_nth)
  then have "s ! (fr + i) = 0x3E" using t by simp
  moreover have "nat e = fr + i" using i(2) by simp
  ultimately show ?thesis using i(2) l by simp
qed

lemma slice_prefix: "0 \<le> e \<Longrightarrow> nat e < length s \<Longrightarrow> slice s 0 (e + 1) = take (Suc (nat e)) s"
  by (simp add: slice_def Let_def min_def nat_add_distrib)

lemma slice_suffix: "0 \<le> e \<Longrightarrow> nat e < length s \<Longrightarrow> slice_from s (e + 1) = drop (Suc (nat e)) s"
  by (simp add: slice_from_def slice_def Let_def min_def nat_add_distrib)

lemma inject_shape:
  assumes "tag \<noteq> []"
  shows "\<exists>pre post. remove_base_tags raw = pre @ post \<and> (pre = [] \<or> last pre = 0x3E)
           \<and> injectBaseHref (Some raw) (Some tag) = pre @ tag @ post"
proof -
  define clean where "clean = remove_base_tags raw"
  define hs where "hs = indexOf (toLowerCase clean) (js ''<head>'') 0"
  define e where "e = indexOf clean (js ''>'') hs"
  show ?thesis
  proof (cases "hs \<noteq> - 1 \<and> e \<noteq> - 1")
    case True
    then have g: "0 \<le> e" "nat e < length clean" "clean ! nat e = 0x3E"
      using indexOf_gt [of clean hs e] e_def by auto
    have r: "injectBaseHref (Some raw) (Some tag)
               = take (Suc (nat e)) clean @ tag @ drop (Suc (nat e)) clean"
      using True assms g
      by (simp add: injectBaseHref_def falsy_def Let_def clean_def [symmetric] hs_def [symmetric]
          e_def [symmetric] slice_prefix slice_suffix)
    have "last (take (Suc (nat e)) clean) = 0x3E"
      using g by (simp add: take_Suc_conv_app_nth)
    then show ?thesis using r clean_def
      by (metis append_take_drop_id)
  next
    case False
    then have "injectBaseHref (Some raw) (Some tag) = tag @ clean"
      using assms
      by (auto simp: injectBaseHref_def falsy_def Let_def clean_def [symmetric] hs_def [symmetric]
          e_def [symmetric])
    then show ?thesis using clean_def by (metis append_Nil)
  qed
qed

text \<open>
  Claim C1, as the code has it. The removal is one pass of the regular expression and is
  not repeated. For a markup in which no base tag starts right after an unfinished \<open><\<close>,
  \<open><b\<close>, \<open><ba\<close> or \<open><bas\<close>, the pass leaves no base tag, and the output of the injector
  with a base tag (a text that is one whole match of the expression) holds exactly one base
  tag, the supplied one. With the empty string for the tag the markup comes back unchanged.
\<close>

theorem inject_one_base_tag:
  "(match_base_tag tag = Some (tag, []) \<and> \<not> tag_after_open_prefix raw \<longrightarrow>
      base_tag_matches (remove_base_tags raw) = []
      \<and> base_tag_matches (injectBaseHref (Some raw) (Some tag)) = [tag])
   \<and> injectBaseHref (Some raw) (Some []) = raw"
proof -
  have "base_tag_matches (remove_base_tags raw) = []
      \<and> base_tag_matches (injectBaseHref (Some raw) (Some tag)) = [tag]"
    if t: "match_base_tag tag = Some (tag, [])" and n: "\<not> tag_after_open_prefix raw"
  proof -
    have e: "base_tag_matches (remove_base_tags raw) = []" by (rule removal_leaves_no_tag [OF n])
    have "tag \<noteq> []" using match_base_tag_Some [OF t] by simp
    from inject_shape [OF this, of raw] obtain pre post where
      s: "remove_base_tags raw = pre @ post" "pre = [] \<or> last pre = 0x3E"
         "injectBaseHref (Some raw) (Some tag) = pre @ tag @ post"
      by blast
    show ?thesis using base_tag_matches_insert [OF t s(2)] e s(1,3) by simp
  qed
  moreover have "injectBaseHref (Some raw) (Some []) = raw"
    by (simp add: injectBaseHref_def falsy_def or_empty_def)
  ultimately show ?thesis by blast
qed

theorem inject_one_base_tag_witness:
  "match_base_tag (js ''<base href=\"x/\">'') = Some (js ''<base href=\"x/\">'', [])
   \<and> \<not> tag_after_open_prefix
         (js ''<html><head><BASE href=\"old/\"><title>T</title><base target=\"_blank\"></head></html>'')
   \<and> base_tag_matches
         (js ''<html><head><BASE href=\"old/\"><title>T</title><base target=\"_blank\"></head></html>'')
       = [js ''<BASE href=\"old/\">'', js ''<base target=\"_blank\">'']
   \<and> base_tag_matches (injectBaseHref
         (Some (js ''<html><head><BASE href=\"old/\"><title>T</title><base target=\"_blank\"></head></html>''))
         (Some (js ''<base href=\"x/\">''))) = [js ''<base href=\"x/\">'']"
proof -
  have h1: "match_base_tag (js ''<base href=\"x/\">'') = Some (js ''<base href=\"x/\">'', [])"
    by code_simp
  have h2: "\<not> tag_after_open_prefix
         (js ''<html><head><BASE href=\"old/\"><title>T</title><base target=\"_blank\"></head></html>'')"
    by code_simp
  have h3: "base_tag_matches
         (js ''<html><head><BASE href=\"old/\"><title>T</title><base target=\"_blank\"></head></html>'')
       = [js ''<BASE href=\"old/\">'', js ''<base target=\"_blank\">'']"
    by code_simp
  from inject_one_base_tag [THEN conjunct1, THEN mp, OF conjI [OF h1 h2]] h1 h2 h3
  show ?thesis by blast
qed

text \<open>
  Without the condition the claim fails: removing the inner tag of \<open><ba<base>se>\<close> joins
  the two halves of an outer one, and the output holds two base tags.
\<close>

theorem inject_nested_base_counterexample:
  "base_tag_matches (injectBaseHref (Some (js ''<ba<base>se>'')) (Some (js ''<base href=\"x/\">'')))
     = [js ''<base href=\"x/\">'', js ''<base>'']"
  by code_simp

text \<open>In that markup the inner tag starts right after the unfinished \<open><ba\<close>.\<close>

lemma nested_base_after_open_prefix: "tag_after_open_prefix (js ''<ba<base>se>'')"
  by code_simp

subsection \<open>The search for the head tag\<close>

lemma toLowerCase_Nil: "toLowerCase [] = []"
  by (simp add: toLowerCase_def)

lemma toLowerCase_Cons: "toLowerCase (c # cs) = lower_unit c @ toLowerCase cs"
  by (simp add: toLowerCase_def)

lemma upper_to_lower:
  fixes c :: jschar
  assumes "0x41 \<le> c" "c \<le> 0x5A"
  shows "0x61 \<le> c + 0x20 \<and> c + 0x20 \<le> 0x7A \<and> c + 0x20 - 0x20 = c"
  using assms by (unat_arith, simp_all)

lemma lower_to_upper:
  fixes q :: jschar
  assumes "0x61 \<le> q" "q \<le> 0x7A"
  shows "0x41 \<le> q - 0x20 \<and> q - 0x20 \<le> 0x5A \<and> q - 0x20 + 0x20 = q"
  using assms by unat_arith

lemma lower_unit_ci:
  assumes "q < 0x80" "\<not> (0x41 \<le> q \<and> q \<le> 0x5A)" "q \<noteq> 0x69" "q \<noteq> 0x6B"
  shows "(\<exists>r. lower_unit c = q # r) = ci_eq c q" and "ci_eq c q \<Longrightarrow> lower_unit c = [q]"
proof -
  show "(\<exists>r. lower_unit c = q # r) = ci_eq c q"
  proof
    assume "\<exists>r. lower_unit c = q # r"
    then show "ci_eq c q" using assms upper_to_lower [of c]
      by (auto simp: lower_unit_def ci_eq_def split: if_splits)
  next
    assume "ci_eq c q"
    then show "\<exists>r. lower_unit c = q # r" using assms lower_to_upper [of q]
      by (auto simp: lower_unit_def ci_eq_def)
  qed
  show "ci_eq c q \<Longrightarrow> lower_unit c = [q]" using assms lower_to_upper [of q]
    by (auto simp: lower_unit_def ci_eq_def)
qed

lemma lower_pattern_Cons:
  "lower_pattern (q # qs) =
     ((q < 0x80 \<and> \<not> (0x41 \<le> q \<and> q \<le> 0x5A) \<and> q \<noteq> 0x69 \<and> q \<noteq> 0x6B) \<and> lower_pattern qs)"
  by (simp add: lower_pattern_def)

lemma lower_units: "lower_unit c = [0x69, 0x307] \<or> (\<exists>d. lower_unit c = [d])"
  by (simp add: lower_unit_def)

lemma lower_take_ci:
  "lower_pattern p \<Longrightarrow> take (length p) (toLowerCase s) = p \<Longrightarrow> ci_prefix p s"
proof (induction p s rule: ci_prefix.induct)
  case (1 s)
  show ?case by simp
next
  case (2 p ps)
  then show ?case by (simp add: toLowerCase_Nil)
next
  case (3 q qs c cs)
  from "3.prems"(1) have q: "q < 0x80" "\<not> (0x41 \<le> q \<and> q \<le> 0x5A)" "q \<noteq> 0x69" "q \<noteq> 0x6B"
    and qs: "lower_pattern qs" by (simp_all add: lower_pattern_Cons)
  from lower_units [of c] show ?case
  proof
    assume "lower_unit c = [0x69, 0x307]"
    then show ?thesis using "3.prems"(2) q(3) by (simp add: toLowerCase_Cons)
  next
    assume "\<exists>d. lower_unit c = [d]"
    then obtain d where d: "lower_unit c = [d]" ..
    with "3.prems"(2) have e: "d = q" "take (length qs) (toLowerCase cs) = qs"
      by (simp_all add: toLowerCase_Cons)
    have "ci_eq c q" using lower_unit_ci(1) [OF q, of c] d e(1) by simp
    moreover have "ci_prefix qs cs" using "3.IH" qs e(2) by simp
    ultimately show ?thesis by simp
  qed
qed

lemma ci_take_lower:
  "lower_pattern p \<Longrightarrow> ci_prefix p s \<Longrightarrow> take (length p) (toLowerCase s) = p"
proof (induction p s rule: ci_prefix.induct)
  case (3 q qs c cs)
  from "3.prems"(1) have q: "q < 0x80" "\<not> (0x41 \<le> q \<and> q \<le> 0x5A)" "q \<noteq> 0x69" "q \<noteq> 0x6B"
    and qs: "lower_pattern qs" by (simp_all add: lower_pattern_Cons)
  from "3.prems"(2) have "ci_eq c q" "ci_prefix qs cs" by simp_all
  then show ?case using lower_unit_ci(2) [OF q, of c] "3.IH" qs by (simp add: toLowerCase_Cons)
qed simp_all

lemma index_in_lower_None:
  assumes "lower_pattern p" "p \<noteq> []"
  shows "ci_index_in p s = None \<Longrightarrow> index_in p (toLowerCase s) = None"
proof (induction s)
  case Nil
  then show ?case using assms(2) by (simp add: toLowerCase_Nil)
next
  case (Cons c cs)
  from Cons.prems have n: "\<not> ci_prefix p (c # cs)" "ci_index_in p cs = None"
    by (auto split: if_splits option.splits)
  then have ih: "index_in p (toLowerCase cs) = None" using Cons.IH by simp
  obtain q qs where p: "p = q # qs" using assms(2) by (cases p) auto
  have q: "q < 0x80" "q \<noteq> 0x69" using assms(1) p by (simp_all add: lower_pattern_Cons)
  have nt: "take (length p) (toLowerCase (c # cs)) \<noteq> p"
    using lower_take_ci [OF assms(1)] n(1) by blast
  from lower_units [of c] show ?case
  proof
    assume l: "lower_unit c = [0x69, 0x307]"
    have "q \<noteq> 0x307" using q(1) by auto
    then show ?thesis using l ih p q(2) by (simp add: toLowerCase_Cons)
  next
    assume "\<exists>d. lower_unit c = [d]"
    then obtain d where d: "lower_unit c = [d]" ..
    then show ?thesis using nt ih by (simp add: toLowerCase_Cons)
  qed
qed

lemma index_in_lower_Some:
  assumes "lower_pattern p"
  shows "ci_index_in p s = Some i \<Longrightarrow> 0x130 \<notin> set (take i s) \<Longrightarrow>
         index_in p (toLowerCase s) = Some i"
proof (induction s arbitrary: i)
  case Nil
  then show ?case by (auto simp: toLowerCase_Nil split: if_splits)
next
  case (Cons c cs)
  show ?case
  proof (cases "ci_prefix p (c # cs)")
    case True
    then have i: "i = 0" using Cons.prems(1) by simp
    have t: "take (length p) (toLowerCase (c # cs)) = p" by (rule ci_take_lower [OF assms True])
    show ?thesis
    proof (cases "toLowerCase (c # cs)")
      case Nil
      then show ?thesis using t i by simp
    next
      case (Cons a as)
      then show ?thesis using t i by simp
    qed
  next
    case False
    then obtain j where j: "ci_index_in p cs = Some j" "i = Suc j"
      using Cons.prems(1) by (auto split: option.splits)
    then have c: "c \<noteq> 0x130" and r: "0x130 \<notin> set (take j cs)" using Cons.prems(2) by auto
    have ih: "index_in p (toLowerCase cs) = Some j" by (rule Cons.IH [OF j(1) r])
    have nt: "take (length p) (toLowerCase (c # cs)) \<noteq> p"
      using lower_take_ci [OF assms] False by blast
    have "\<exists>d. lower_unit c = [d]" using c by (simp add: lower_unit_def)
    then obtain d where d: "lower_unit c = [d]" ..
    show ?thesis using nt ih d j(2) by (simp add: toLowerCase_Cons)
  qed
qed

lemma lower_pattern_head: "lower_pattern (js ''<head>'')"
  by (simp add: lower_pattern_def js_def)

lemma ci_index_in_Some:
  "ci_index_in p s = Some i \<Longrightarrow> i \<le> length s \<and> ci_prefix p (drop i s)"
proof (induction s arbitrary: i)
  case Nil
  then show ?case by (auto split: if_splits)
next
  case (Cons c cs)
  show ?case
  proof (cases "ci_prefix p (c # cs)")
    case True
    then show ?thesis using Cons.prems by simp
  next
    case False
    then obtain j where j: "ci_index_in p cs = Some j" "i = Suc j"
      using Cons.prems by (auto split: option.splits)
    then show ?thesis using Cons.IH [OF j(1)] by simp
  qed
qed

lemma ci_prefix_Cons_iff:
  "ci_prefix (q # qs) t = (\<exists>c cs. t = c # cs \<and> ci_eq c q \<and> ci_prefix qs cs)"
  by (cases t) auto

lemma head_then_gt:
  assumes "ci_prefix (js ''<head>'') t"
  shows "index_in (js ''>'') t = Some 5"
proof -
  from assms obtain a b c d e f r where t: "t = a # b # c # d # e # f # r"
    and u: "ci_eq a 0x3C" "ci_eq b 0x68" "ci_eq c 0x65" "ci_eq d 0x61" "ci_eq e 0x64" "ci_eq f 0x3E"
    by (auto simp: js_def ci_prefix_Cons_iff)
  from u have "a \<noteq> 0x3E" "b \<noteq> 0x3E" "c \<noteq> 0x3E" "d \<noteq> 0x3E" "e \<noteq> 0x3E" "f = 0x3E"
    by (auto simp: ci_eq_def)
  then show ?thesis using t by (simp add: js_def)
qed

lemma indexOf_head_gt:
  assumes "ci_prefix (js ''<head>'') (drop i s)"
  shows "indexOf s (js ''>'') (int i) = int i + 5"
proof -
  have "drop i s \<noteq> []" using assms by (auto simp: js_def)
  then have "i < length s" by simp
  then show ?thesis using head_then_gt [OF assms] by (simp add: indexOf_def min_def)
qed

lemma indexOf_zero:
  "indexOf s p 0 = (case index_in p s of None \<Rightarrow> - 1 | Some i \<Rightarrow> int i)"
  by (simp add: indexOf_def split: option.splits)

lemma inject_no_head:
  assumes "tag \<noteq> []" "ci_index_in (js ''<head>'') (remove_base_tags raw) = None"
  shows "injectBaseHref (Some raw) (Some tag) = tag @ remove_base_tags raw"
proof -
  have "js ''<head>'' \<noteq> []" by (simp add: js_def)
  from index_in_lower_None [OF lower_pattern_head this assms(2)]
  have "indexOf (toLowerCase (remove_base_tags raw)) (js ''<head>'') 0 = - 1"
    by (simp add: indexOf_zero)
  then show ?thesis using assms(1) by (simp add: injectBaseHref_def falsy_def)
qed

lemma inject_at_head:
  assumes "tag \<noteq> []" "ci_index_in (js ''<head>'') (remove_base_tags raw) = Some i"
    "0x130 \<notin> set (take i (remove_base_tags raw))"
  shows "injectBaseHref (Some raw) (Some tag)
           = take (i + 6) (remove_base_tags raw) @ tag @ drop (i + 6) (remove_base_tags raw)"
proof -
  define clean where "clean = remove_base_tags raw"
  have hs: "indexOf (toLowerCase clean) (js ''<head>'') 0 = int i"
    using index_in_lower_Some [OF lower_pattern_head assms(2,3)]
    by (simp add: indexOf_zero clean_def)
  have p: "ci_prefix (js ''<head>'') (drop i clean)"
    using ci_index_in_Some [OF assms(2)] by (simp add: clean_def)
  have e: "indexOf clean (js ''>'') (int i) = int i + 5" by (rule indexOf_head_gt [OF p])
  have "length (js ''<head>'') \<le> length (drop i clean)" by (rule ci_prefix_length [OF p])
  then have l: "i + 6 \<le> length clean" by (simp add: js_def)
  have "slice clean 0 (int i + 5 + 1) = take (i + 6) clean"
    using l by (simp add: slice_def Let_def min_def nat_add_distrib add.commute)
  moreover have "slice_from clean (int i + 5 + 1) = drop (i + 6) clean"
    using l by (simp add: slice_from_def slice_def Let_def min_def nat_add_distrib add.commute)
  ultimately show ?thesis using assms(1) hs e
    by (simp add: injectBaseHref_def falsy_def Let_def clean_def [symmetric])
qed

lemma upto_gt_whole:
  assumes "match_base_tag t = Some (t, [])"
  shows "upto_gt (t @ ys) = Some (t, ys)"
proof -
  from assms obtain m where o: "ci_prefix (js ''<base'') t" "upto_gt (drop 5 t) = Some (m, [])"
    "t = take 5 t @ m"
    by (auto simp: match_base_tag_def split: if_splits option.splits)
  have "upto_gt (take 5 t) = None" using base_open_no_gt_take [OF o(1)] by (simp add: upto_gt_None)
  from upto_gt_append_None [OF this, of "drop 5 t"] have "upto_gt t = Some (t, [])"
    using o(2,3) by simp
  from upto_gt_append_Some [OF this, of ys] show ?thesis by simp
qed

lemma whole_tag_starts: "match_base_tag t = Some (t, []) \<Longrightarrow> \<exists>r. t = 0x3C # r"
  by (auto simp: match_base_tag_def js_def ci_prefix_Cons_iff ci_eq_def split: if_splits)

lemma base_open_inner_no_lt: "0 < k \<Longrightarrow> k < 5 \<Longrightarrow> \<not> ci_eq 0x3C (js ''<base'' ! k)"
proof -
  assume "0 < k" "k < 5"
  then have "k = 1 \<or> k = 2 \<or> k = 3 \<or> k = 4" by arith
  then show ?thesis by (auto simp: js_def ci_eq_def)
qed

lemma match_pending:
  assumes t: "match_base_tag t = Some (t, [])"
    and n: "match_base_tag (c # cs) = None"
    and s: "match_base_tag ((c # cs) @ t @ post) = Some (m, r)"
  shows "r = post"
proof -
  from s have p: "ci_prefix (js ''<base'') ((c # cs) @ t @ post)"
    by (auto simp: match_base_tag_def split: if_splits)
  obtain t' where t': "t = 0x3C # t'" using whole_tag_starts [OF t] by blast
  have l: "5 \<le> length (c # cs)"
  proof (rule ccontr)
    assume "\<not> 5 \<le> length (c # cs)"
    then have k: "0 < length (c # cs)" "length (c # cs) < 5" by simp_all
    then have "length (c # cs) < length (js ''<base'')" by (simp add: length_base_open)
    from ci_prefix_nth [OF p this]
    have "ci_eq (((c # cs) @ t @ post) ! length (c # cs)) (js ''<base'' ! length (c # cs))" .
    moreover have "((c # cs) @ t @ post) ! length (c # cs) = 0x3C"
      unfolding t' by (metis append_Cons nth_append_length)
    ultimately show False using base_open_inner_no_lt [OF k] by simp
  qed
  then have px: "ci_prefix (js ''<base'') (c # cs)"
    using p ci_prefix_append [of "js ''<base''" "c # cs" "t @ post"] by (simp add: length_base_open)
  then have un: "upto_gt (drop 5 (c # cs)) = None"
    using n by (auto simp: match_base_tag_def split: option.splits)
  have d: "drop 5 ((c # cs) @ t @ post) = drop 5 (c # cs) @ t @ post" using l by simp
  have "upto_gt (drop 5 ((c # cs) @ t @ post)) = Some (drop 5 (c # cs) @ t, post)"
    unfolding d using upto_gt_append_None [OF un, of "t @ post"] upto_gt_whole [OF t, of post]
    by simp
  then show ?thesis using s p by (simp add: match_base_tag_def)
qed

lemma remove_whole_tag_start:
  assumes "match_base_tag t = Some (t, [])"
  shows "remove_base_tags (t @ post) = remove_base_tags post"
  by (simp add: remove_base_tags_def scan_base_whole_tag [OF assms])

lemma remove_tag_gone:
  assumes t: "match_base_tag t = Some (t, [])"
  shows "\<exists>k. remove_base_tags (pre @ t @ post)
              = take k (remove_base_tags pre) @ remove_base_tags post"
proof (induction pre rule: scan_base.induct)
  case 1
  have "remove_base_tags ([] @ t @ post) = take 0 (remove_base_tags []) @ remove_base_tags post"
    using remove_whole_tag_start [OF t] by simp
  then show ?case ..
next
  case (2 c cs)
  show ?case
  proof (cases "match_base_tag (c # cs)")
    case (Some mr)
    obtain m r where mr: "mr = (m, r)" by (cases mr)
    from "2.IH"(2) Some mr obtain k where
      k: "remove_base_tags (r @ t @ post) = take k (remove_base_tags r) @ remove_base_tags post"
      by blast
    have "match_base_tag (c # (cs @ t @ post)) = Some (m, r @ t @ post)"
      using match_base_tag_append_Some [of "c # cs" m r "t @ post"] Some mr by simp
    then have "remove_base_tags ((c # cs) @ t @ post)
                 = take k (remove_base_tags (c # cs)) @ remove_base_tags post"
      using k Some mr by (simp add: remove_base_tags_Cons)
    then show ?thesis ..
  next
    case None
    show ?thesis
    proof (cases "match_base_tag ((c # cs) @ t @ post)")
      case (Some mr)
      obtain m r where mr: "mr = (m, r)" by (cases mr)
      have "r = post" using match_pending [OF t None] Some mr by simp
      then have "remove_base_tags ((c # cs) @ t @ post)
                   = take 0 (remove_base_tags (c # cs)) @ remove_base_tags post"
        using Some mr by (simp add: remove_base_tags_Cons)
      then show ?thesis ..
    next
      case n: None
      from "2.IH"(1) None obtain k where
        k: "remove_base_tags (cs @ t @ post) = take k (remove_base_tags cs) @ remove_base_tags post"
        by blast
      have "remove_base_tags ((c # cs) @ t @ post)
                   = take (Suc k) (remove_base_tags (c # cs)) @ remove_base_tags post"
        using n None k by (simp add: remove_base_tags_Cons)
      then show ?thesis ..
    qed
  qed
qed

text \<open>
  Where the tag is put. Without a six-unit text \<open><head>\<close> (in either case) in the
  cleaned markup the tag is prepended. With one at position \<open>i\<close>, and no U+0130 before it,
  the tag is put right after the \<open>>\<close> that closes it.
\<close>

lemma inject_at_first_head:
  "(tag \<noteq> [] \<and> ci_index_in (js ''<head>'') (remove_base_tags raw) = Some i
      \<and> 0x130 \<notin> set (take i (remove_base_tags raw)) \<longrightarrow>
      injectBaseHref (Some raw) (Some tag)
        = take (i + 6) (remove_base_tags raw) @ tag @ drop (i + 6) (remove_base_tags raw))
   \<and> (tag \<noteq> [] \<and> ci_index_in (js ''<head>'') (remove_base_tags raw) = None \<longrightarrow>
      injectBaseHref (Some raw) (Some tag) = tag @ remove_base_tags raw)"
  using inject_at_head inject_no_head by blast

text \<open>The example of the specification: the tag lands right after \<open><head>\<close>.\<close>

lemma inject_example:
  "injectBaseHref (Some (js ''<html><head><title>T</title></head><body>Hi</body></html>''))
     (Some (js ''<base href=\"https://vscode-resource/proj/\">''))
   = js ''<html><head><base href=\"https://vscode-resource/proj/\"><title>T</title></head><body>Hi</body></html>''"
  by code_simp

text \<open>
  Claim C2 at a markup the code mishandles. \<open>headTagStart\<close> is a position of the lower-cased
  copy, and is used as a position of the markup itself. The lower case of U+0130 is two
  code units long, so after six of them the position is past the \<open>>\<close> of \<open><head>\<close>, and the
  tag is put after the next \<open>>\<close>, here inside the title element.
\<close>

theorem inject_after_dotted_capital_I:
  "injectBaseHref (Some (replicate 6 0x130 @ js ''<head><title>T</title></head>''))
     (Some (js ''<base href=\"x/\">''))
   = replicate 6 0x130 @ js ''<head><title><base href=\"x/\">T</title></head>''"
  by code_simp

text \<open>
  Claim C10, as the code has it. (1) The removal deletes every text that starts with
  \<open><base\<close> (in either case) and runs to the next \<open>>\<close>, whatever the tag name goes on with:
  around such a text \<open>t\<close>, for instance \<open><basefont size="3">\<close>, the cleaned markup is what
  the removal leaves of the text before \<open>t\<close> (or a prefix of that, when an unclosed \<open><base\<close>
  stands there) followed by what it leaves of the text after \<open>t\<close>; nothing of \<open>t\<close> stays.
  (2) Only the six-unit text \<open><head>\<close> (in either case) is searched for, in the cleaned
  markup. Where it stands first at position \<open>i\<close>, with no U+0130 before it, the tag is put
  right after it, whatever stands before: a head tag with attributes is passed over, and a
  later \<open><head>\<close>, be it inside a script, is taken. Where the cleaned markup does not hold
  the six-unit text, as when its only head tag carries attributes, the tag is prepended.
\<close>

theorem removal_by_name_prefix_and_literal_head:
  "(match_base_tag t = Some (t, []) \<longrightarrow>
      (\<exists>k. remove_base_tags (pre @ t @ post)
            = take k (remove_base_tags pre) @ remove_base_tags post))
   \<and> match_base_tag (js ''<basefont size=\"3\">'') = Some (js ''<basefont size=\"3\">'', [])
   \<and> (tag \<noteq> [] \<and> ci_index_in (js ''<head>'') (remove_base_tags raw) = Some i
        \<and> 0x130 \<notin> set (take i (remove_base_tags raw)) \<longrightarrow>
      injectBaseHref (Some raw) (Some tag)
        = take (i + 6) (remove_base_tags raw) @ tag @ drop (i + 6) (remove_base_tags raw))
   \<and> (tag \<noteq> [] \<and> ci_index_in (js ''<head>'') (remove_base_tags raw) = None \<longrightarrow>
      injectBaseHref (Some raw) (Some tag) = tag @ remove_base_tags raw)"
proof -
  have "match_base_tag (js ''<basefont size=\"3\">'') = Some (js ''<basefont size=\"3\">'', [])"
    by code_simp
  then show ?thesis
    using remove_tag_gone [of t pre post] inject_at_head [of tag raw i] inject_no_head [of tag raw]
    by blast
qed

theorem removal_by_name_prefix_and_literal_head_witness:
  "(\<exists>k. remove_base_tags (js ''<body>text'' @ js ''<basefont size=\"3\">'' @ js ''</body>'')
          = take k (remove_base_tags (js ''<body>text'')) @ remove_base_tags (js ''</body>''))
   \<and> remove_base_tags (js ''<body>text'' @ js ''<basefont size=\"3\">'' @ js ''</body>'')
       = js ''<body>text</body>''
   \<and> ci_index_in (js ''<head>'')
         (remove_base_tags (js ''<html><HEAD><base href=\"old/\"><title>T</title></HEAD></html>''))
       = Some 6
   \<and> injectBaseHref (Some (js ''<html><HEAD><base href=\"old/\"><title>T</title></HEAD></html>''))
         (Some (js ''<base href=\"x/\">''))
       = js ''<html><HEAD><base href=\"x/\"><title>T</title></HEAD></html>''
   \<and> ci_index_in (js ''<head>'')
         (remove_base_tags (js ''<html><head lang=\"en\"><title>T</title></head></html>'')) = None
   \<and> injectBaseHref (Some (js ''<html><head lang=\"en\"><title>T</title></head></html>''))
         (Some (js ''<base href=\"x/\">''))
       = js ''<base href=\"x/\"><html><head lang=\"en\"><title>T</title></head></html>''"
proof -
  have h1: "match_base_tag (js ''<basefont size=\"3\">'') = Some (js ''<basefont size=\"3\">'', [])"
    by code_simp
  have h2: "js ''<base href=\"x/\">'' \<noteq> []
     \<and> ci_index_in (js ''<head>'')
         (remove_base_tags (js ''<html><head lang=\"en\"><title>T</title></head></html>'')) = None"
    by code_simp
  have h3: "js ''<base href=\"x/\">'' \<noteq> []
     \<and> ci_index_in (js ''<head>'')
         (remove_base_tags (js ''<html><HEAD><base href=\"old/\"><title>T</title></HEAD></html>''))
       = Some 6
     \<and> 0x130 \<notin> set (take 6
         (remove_base_tags (js ''<html><HEAD><base href=\"old/\"><title>T</title></HEAD></html>'')))"
    by code_simp
  have e1: "remove_base_tags (js ''<body>text'' @ js ''<basefont size=\"3\">'' @ js ''</body>'')
       = js ''<body>text</body>''"
    by code_simp
  have e2: "js ''<base href=\"x/\">''
         @ remove_base_tags (js ''<html><head lang=\"en\"><title>T</title></head></html>'')
       = js ''<base href=\"x/\"><html><head lang=\"en\"><title>T</title></head></html>''"
    by code_simp
  have e3: "take (6 + 6)
         (remove_base_tags (js ''<html><HEAD><base href=\"old/\"><title>T</title></HEAD></html>''))
       @ js ''<base href=\"x/\">''
       @ drop (6 + 6)
         (remove_base_tags (js ''<html><HEAD><base href=\"old/\"><title>T</title></HEAD></html>''))
       = js ''<html><HEAD><base href=\"x/\"><title>T</title></HEAD></html>''"
    by code_simp
  note i1 = removal_by_name_prefix_and_literal_head
    [of "js ''<basefont size=\"3\">''" "js ''<body>text''" "js ''</body>''"
        "js ''<base href=\"x/\">''"
        "js ''<html><head lang=\"en\"><title>T</title></head></html>''"]
  note i2 = removal_by_name_prefix_and_literal_head
    [of _ _ _ "js ''<base href=\"x/\">''"
        "js ''<html><HEAD><base href=\"old/\"><title>T</title></HEAD></html>''" 6]
  from i1 [THEN conjunct1, THEN mp, OF h1]
    i1 [THEN conjunct2, THEN conjunct2, THEN conjunct2, THEN mp, OF h2]
    i2 [THEN conjunct2, THEN conjunct2, THEN conjunct1, THEN mp, OF h3] h2 h3 e1 e2 e3
  show ?thesis by simp
qed

text \<open>
  The claim as the spec words it (a markup whose first head tag carries attributes gets
  the tag prepended) fails where a six-unit text \<open><head>\<close> stands later in the markup, here
  in a string of a script: the tag is put after that text.
\<close>

theorem head_with_attributes_counterexample:
  "injectBaseHref
     (Some (js ''<html><head lang=\"en\"><script>var s = \"<head>\";</script></head></html>''))
     (Some (js ''<base href=\"x/\">''))
   = js ''<html><head lang=\"en\"><script>var s = \"<head><base href=\"x/\">\";</script></head></html>''
   \<and> injectBaseHref
     (Some (js ''<html><head lang=\"en\"><script>var s = \"<head>\";</script></head></html>''))
     (Some (js ''<base href=\"x/\">''))
   \<noteq> js ''<base href=\"x/\">''
       @ js ''<html><head lang=\"en\"><script>var s = \"<head>\";</script></head></html>''"
  by code_simp

section \<open>Properties of the host page\<close>

lemma getWebviewHtml_not_empty: "getWebviewHtml h k rawUserHtml documentUri \<noteq> []"
  by (simp add: getWebviewHtml_def Let_def page_text_0_def js_def)

section \<open>Properties of the base-href resolver\<close>

lemma endsWith_append_self: "endsWith (s @ p) p"
  by (simp add: endsWith_def)

lemma getBaseHrefString_not_file:
  "documentUri = None \<or> (\<exists>u. documentUri = Some u \<and> scheme u \<noteq> js ''file'') \<Longrightarrow>
   getBaseHrefString h documentUri = []"
  by (auto simp: getBaseHrefString_def)

lemma getBaseHrefString_thrown:
  "joinPath h u (js ''..'') = Inl e \<or>
     (\<exists>d e. joinPath h u (js ''..'') = Inr d \<and> asWebviewUri h d = Inl e) \<Longrightarrow>
   getBaseHrefString h (Some u) = []"
  by (auto simp: getBaseHrefString_def)

lemma getBaseHrefString_file:
  assumes "scheme u = js ''file''" "joinPath h u (js ''..'') = Inr dir" "asWebviewUri h dir = Inr w"
  shows "\<exists>href. getBaseHrefString h (Some u) = js ''<base href=\"'' @ href @ js ''\">''
           \<and> endsWith href (js ''/'')
           \<and> (href = uri_toString h w \<or> href = uri_toString h w @ js ''/'')"
proof (cases "endsWith (uri_toString h w) (js ''/'')")
  case True
  then show ?thesis using assms by (simp add: getBaseHrefString_def)
next
  case False
  then show ?thesis using assms by (simp add: getBaseHrefString_def endsWith_append_self)
qed

text \<open>
  Claim C8. For an absent location or one whose scheme is not \<open>file\<close> the resolver returns
  the empty string, and the injector then leaves the markup as it is. For a \<open>file\<close>
  location whose parent directory the host gives as \<open>dir\<close> and whose virtual URL it gives
  as \<open>w\<close>, the result is \<open><base href="\<close>, the text of \<open>w\<close> with a \<open>/\<close> added unless it
  ends with one, and \<open>">\<close>. (When one of the two host calls throws, the result is the empty
  string: \<open>getBaseHrefString_thrown\<close>.)
\<close>

theorem base_href_resolver:
  "(documentUri = None \<or> (\<exists>u. documentUri = Some u \<and> scheme u \<noteq> js ''file'') \<longrightarrow>
      getBaseHrefString h documentUri = []
      \<and> injectBaseHref (Some raw) (Some (getBaseHrefString h documentUri)) = raw)
   \<and> (scheme u = js ''file'' \<and> joinPath h u (js ''..'') = Inr dir \<and> asWebviewUri h dir = Inr w \<longrightarrow>
      (\<exists>href. getBaseHrefString h (Some u) = js ''<base href=\"'' @ href @ js ''\">''
           \<and> endsWith href (js ''/'')
           \<and> (href = uri_toString h w \<or> href = uri_toString h w @ js ''/'')))"
proof -
  have "injectBaseHref (Some raw) (Some []) = raw"
    by (simp add: injectBaseHref_def falsy_def or_empty_def)
  then show ?thesis
    using getBaseHrefString_not_file [of documentUri h] getBaseHrefString_file [of u h dir w]
    by auto
qed

lemma example_dir:
  "joinPath example_host example_uri (js ''..'')
     = Inr (example_uri\<lparr>path := js ''/proj''\<rparr>)"
  by (simp add: example_host_def example_uri_def js_def)

theorem base_href_resolver_witness:
  "getBaseHrefString example_host (Some (example_uri\<lparr>scheme := js ''untitled''\<rparr>)) = []
   \<and> injectBaseHref (Some (js ''<p>''))
        (Some (getBaseHrefString example_host (Some (example_uri\<lparr>scheme := js ''untitled''\<rparr>))))
      = js ''<p>''
   \<and> getBaseHrefString example_host (Some example_uri)
      = js ''<base href=\"https://vscode-resource/proj/\">''"
proof -
  note inst = base_href_resolver [of "Some (example_uri\<lparr>scheme := js ''untitled''\<rparr>)"
      example_host "js ''<p>''" example_uri "example_uri\<lparr>path := js ''/proj''\<rparr>"
      "example_uri\<lparr>path := js ''/proj'', scheme := js ''https'', authority := js ''vscode-resource''\<rparr>"]
  have a: "scheme (example_uri\<lparr>scheme := js ''untitled''\<rparr>) \<noteq> js ''file''"
    by (simp add: js_def)
  have b: "scheme example_uri = js ''file''" by (simp add: example_uri_def)
  have c: "asWebviewUri example_host (example_uri\<lparr>path := js ''/proj''\<rparr>)
     = Inr (example_uri\<lparr>path := js ''/proj'', scheme := js ''https'', authority := js ''vscode-resource''\<rparr>)"
    by (simp add: example_host_def)
  have d: "uri_toString example_host
      (example_uri\<lparr>path := js ''/proj'', scheme := js ''https'', authority := js ''vscode-resource''\<rparr>)
     = js ''https://vscode-resource/proj''"
    by (simp add: example_host_def example_uri_def js_def)
  from inst [THEN conjunct2, THEN mp, OF conjI [OF b conjI [OF example_dir c]]]
  obtain href where h: "getBaseHrefString example_host (Some example_uri)
        = js ''<base href=\"'' @ href @ js ''\">''"
      "endsWith href (js ''/'')"
      "href = js ''https://vscode-resource/proj'' \<or> href = js ''https://vscode-resource/proj'' @ js ''/''"
    unfolding d by blast
  have "\<not> endsWith (js ''https://vscode-resource/proj'') (js ''/'')"
    by (simp add: endsWith_def js_def)
  then have "href = js ''https://vscode-resource/proj'' @ js ''/''" using h(2,3) by auto
  then have e: "getBaseHrefString example_host (Some example_uri)
      = js ''<base href=\"https://vscode-resource/proj/\">''"
    using h(1) by (simp add: js_def)
  from inst [THEN conjunct1] a e show ?thesis by auto
qed

section \<open>How the handlers change the state\<close>

lemma page_of_not_empty: "page_of h s doc \<noteq> []"
  by (simp add: page_of_def getWebviewHtml_not_empty)

lemma falsy_Some: "falsy (Some x) = (x = [])"
  by (simp add: falsy_def)

lemma update_rebuild:
  assumes "documents s d = Some doc" "panels s p = Some pn" "f \<or> webview_html pn = []"
  shows "updateWebviewContent h p d f s =
           Inr (s\<lparr>panels := (panels s)(p \<mapsto> pn\<lparr>webview_html := page_of h s doc\<rparr>),
                  random_calls := random_calls s + 32,
                  trace := trace s @ [SetHtml p (page_of h s doc)]\<rparr>)"
  using assms by (auto simp: updateWebviewContent_def falsy_Some Let_def emit_def page_of_def)

lemma update_incremental:
  assumes "documents s d = Some doc" "panels s p = Some pn" "\<not> f" "webview_html pn \<noteq> []"
  shows "updateWebviewContent h p d f s =
           Inr (s\<lparr>trace := trace s @ [PostMessage p (update_message doc)]\<rparr>)"
  using assms by (simp add: updateWebviewContent_def falsy_Some Let_def emit_def update_message_def)

lemma update_thrown:
  "documents s d = None \<or> panels s p = None \<Longrightarrow> updateWebviewContent h p d f s = Inl Thrown"
  by (auto simp: updateWebviewContent_def split: option.splits)

lemma update_Inl: "updateWebviewContent h p d f s = Inl e \<Longrightarrow> documents s d = None \<or> panels s p = None"
  by (auto simp: updateWebviewContent_def Let_def split: option.splits if_splits)

lemma update_cases:
  assumes "updateWebviewContent h p d f s = Inr s'"
  obtains doc pn where "documents s d = Some doc" "panels s p = Some pn" "f \<or> webview_html pn = []"
      "s' = s\<lparr>panels := (panels s)(p \<mapsto> pn\<lparr>webview_html := page_of h s doc\<rparr>),
                  random_calls := random_calls s + 32,
                  trace := trace s @ [SetHtml p (page_of h s doc)]\<rparr>"
  | doc pn where "documents s d = Some doc" "panels s p = Some pn" "\<not> f" "webview_html pn \<noteq> []"
      "s' = s\<lparr>trace := trace s @ [PostMessage p (update_message doc)]\<rparr>"
proof -
  from assms obtain doc pn where o: "documents s d = Some doc" "panels s p = Some pn"
    by (auto simp: updateWebviewContent_def Let_def split: option.splits)
  show ?thesis
  proof (cases "f \<or> webview_html pn = []")
    case True
    with that(1) [OF o True] update_rebuild [OF o True, of h] assms show ?thesis by simp
  next
    case False
    then have "\<not> f" "webview_html pn \<noteq> []" by auto
    with that(2) [OF o this] update_incremental [OF o this, of h] assms show ?thesis by simp
  qed
qed

lemma showPreview_no_editor:
  "showPreview h None s
     = s\<lparr>trace := trace s @ [ShowInformationMessage (js ''No active HTML editor found.'')]\<rparr>"
  by (simp add: showPreview_def emit_def)

lemma showPreview_no_object: "documents s d = None \<Longrightarrow> showPreview h (Some d) s = s"
  by (simp add: showPreview_def)

lemma showPreview_not_html:
  "documents s d = Some doc \<Longrightarrow> languageId doc \<noteq> js ''html'' \<Longrightarrow>
   showPreview h (Some d) s
     = s\<lparr>trace := trace s @ [ShowErrorMessage (js ''Current file is not an HTML file.'')]\<rparr>"
  by (simp add: showPreview_def emit_def)

lemma showPreview_existing:
  assumes "documents s d = Some doc" "languageId doc = js ''html''"
    "map_of (previewPanels s) (documentKey h doc) = Some p" "panels s p = Some pn"
  shows "showPreview h (Some d) s =
     (if webview_html pn = []
      then s\<lparr>panels := (panels s)(p \<mapsto> pn\<lparr>webview_html := page_of h s doc\<rparr>),
             random_calls := random_calls s + 32,
             trace := trace s @ [Reveal p, SetHtml p (page_of h s doc)]\<rparr>
      else s\<lparr>trace := trace s @ [Reveal p, PostMessage p (update_message doc)]\<rparr>)"
proof -
  define s1 where "s1 = s\<lparr>trace := trace s @ [Reveal p]\<rparr>"
  have r: "reveal p s = Inr s1" using assms(4) by (simp add: reveal_def emit_def s1_def)
  have d1: "documents s1 d = Some doc" "panels s1 p = Some pn" using assms by (simp_all add: s1_def)
  show ?thesis
  proof (cases "webview_html pn = []")
    case True
    then have "False \<or> webview_html pn = []" by simp
    from update_rebuild [OF d1 this, of h] True assms(1-3) r show ?thesis
      by (simp add: showPreview_def Let_def s1_def page_of_def)
  next
    case False
    from update_incremental [OF d1 _ False, of False h] False assms(1-3) r show ?thesis
      by (simp add: showPreview_def Let_def s1_def)
  qed
qed

lemma showPreview_existing_disposed:
  assumes "documents s d = Some doc" "languageId doc = js ''html''"
    "map_of (previewPanels s) (documentKey h doc) = Some p" "panels s p = None"
  shows "showPreview h (Some d) s = s"
  using assms by (simp add: showPreview_def Let_def reveal_def)

lemma showPreview_new:
  assumes "documents s d = Some doc" "languageId doc = js ''html''"
    "map_of (previewPanels s) (documentKey h doc) = None"
  shows "showPreview h (Some d) s =
     s\<lparr>previewPanels := AList.update (documentKey h doc) (next_panel s) (previewPanels s),
       panels := (panels s)(next_panel s \<mapsto>
          \<lparr>viewType = documentKey h doc, webview_html = page_of h s doc, visible = True,
           onDidDispose = Some (documentKey h doc),
           onDidChangeViewState = Some (documentKey h doc)\<rparr>),
       next_panel := Suc (next_panel s),
       random_calls := random_calls s + 32,
       trace := trace s @ [CreateWebviewPanel (next_panel s) (documentKey h doc),
                           SetHtml (next_panel s) (page_of h s doc)]\<rparr>"
proof -
  define k where "k = documentKey h doc"
  define n where "n = next_panel s"
  define pn where "pn = \<lparr>viewType = k, webview_html = [], visible = True,
                onDidDispose = None, onDidChangeViewState = (None :: jsstring option)\<rparr>"
  define s1 where "s1 = emit (CreateWebviewPanel n k)
        (s\<lparr>panels := (panels s)(n \<mapsto> pn), next_panel := Suc n\<rparr>)"
  define s2 where "s2 = s1\<lparr>previewPanels := AList.update k n (previewPanels s1)\<rparr>"
  define s3 where "s3 = s2\<lparr>panels := (panels s2)(n \<mapsto> pn\<lparr>webview_html := page_of h s2 doc\<rparr>),
              random_calls := random_calls s2 + 32,
              trace := trace s2 @ [SetHtml n (page_of h s2 doc)]\<rparr>"
  have c: "createWebviewPanel k s = (n, s1)"
    by (simp add: createWebviewPanel_def n_def pn_def s1_def)
  have d2: "documents s2 d = Some doc" "panels s2 n = Some pn"
    using assms by (simp_all add: s2_def s1_def emit_def)
  have "True \<or> webview_html pn = []" by simp
  from update_rebuild [OF d2 this, of h]
  have u: "updateWebviewContent h n d True s2 = Inr s3" by (simp add: s3_def)
  have e: "showPreview h (Some d) s = register_listeners n k s3"
    using assms c u by (simp add: showPreview_def Let_def k_def [symmetric] s2_def)
  have p: "page_of h s2 doc = page_of h s doc" by (simp add: page_of_def s2_def s1_def emit_def)
  show ?thesis
    unfolding e k_def [symmetric] n_def [symmetric]
    by (rule state.equality)
       (simp_all add: register_listeners_def s3_def s2_def s1_def emit_def pn_def page_of_def)
qed

lemma dispose_not_live: "panels s p = None \<Longrightarrow> dispose p s = s"
  by (simp add: dispose_def)

lemma dispose_live:
  "panels s p = Some pn \<Longrightarrow>
   dispose p s =
     s\<lparr>previewPanels := (case onDidDispose pn of
                             None \<Rightarrow> previewPanels s
                           | Some k \<Rightarrow> AList.delete k (previewPanels s)),
       panels := (panels s)(p := None),
       trace := trace s @ [Dispose p]\<rparr>"
  by (rule state.equality) (simp_all add: dispose_def emit_def Let_def split: option.splits)

lemma changeDocument_qualifying:
  assumes "documents s d = Some doc" "map_of (previewPanels s) (documentKey h doc) = Some p"
    "languageId doc = js ''html''"
  shows "changeDocumentSubscription h d s =
     s\<lparr>updateTimeout := Some (next_timer s),
       timers := (case updateTimeout s of
                    None \<Rightarrow> timers s
                  | Some t \<Rightarrow> filter (\<lambda>(i, at, p, d). i \<noteq> t) (timers s))
                 @ [(next_timer s, now s + 300, p, d)],
       next_timer := Suc (next_timer s)\<rparr>"
  using assms
  by (intro state.equality)
     (simp_all add: changeDocumentSubscription_def setTimeout_def clearTimeout_def Let_def
        split: option.splits)

lemma changeDocument_other:
  "documents s d = None
     \<or> (\<exists>doc. documents s d = Some doc
           \<and> (map_of (previewPanels s) (documentKey h doc) = None \<or> languageId doc \<noteq> js ''html'')) \<Longrightarrow>
   changeDocumentSubscription h d s = s"
  by (auto simp: changeDocumentSubscription_def split: option.splits)

lemma timeout_callback_thrown:
  "documents s d = None \<or> panels s p = None \<Longrightarrow> timeout_callback h p d s = s"
  by (simp add: timeout_callback_def update_thrown)

lemma timeout_callback_live:
  assumes "documents s d = Some doc" "panels s p = Some pn"
  shows "timeout_callback h p d s =
     (if webview_html pn = []
      then s\<lparr>updateTimeout := None,
             panels := (panels s)(p \<mapsto> pn\<lparr>webview_html := page_of h s doc\<rparr>),
             random_calls := random_calls s + 32,
             trace := trace s @ [SetHtml p (page_of h s doc)]\<rparr>
      else s\<lparr>updateTimeout := None, trace := trace s @ [PostMessage p (update_message doc)]\<rparr>)"
proof (cases "webview_html pn = []")
  case True
  then have "False \<or> webview_html pn = []" by simp
  from update_rebuild [OF assms this, of h] True show ?thesis
    by (simp add: timeout_callback_def)
next
  case False
  from update_incremental [OF assms _ False, of False h] False show ?thesis
    by (simp add: timeout_callback_def)
qed

lemma fire_due_none: "timers s = [] \<Longrightarrow> fire_due h t s = s\<lparr>now := t\<rparr>"
  by (simp add: fire_due_def)

lemma fire_due_one:
  "timers s = [(i, at, p, d)] \<Longrightarrow>
   fire_due h t s =
     (if at \<le> t then timeout_callback h p d (s\<lparr>now := t, timers := []\<rparr>)
      else s\<lparr>now := t, timers := [(i, at, p, d)]\<rparr>)"
  by (simp add: fire_due_def)

section \<open>Properties of the update dispatcher\<close>

lemma messages_ok_append: "messages_ok (t @ u) = (messages_ok t \<and> messages_ok u)"
  by (simp add: messages_ok_def)

lemma messages_ok_in:
  "messages_ok t \<Longrightarrow> PostMessage q m \<in> set t \<Longrightarrow> command m = js ''updateContent''"
  by (auto simp: messages_ok_def list_all_iff split: effect.splits)

lemma messages_ok_simps:
  "messages_ok []"
  "messages_ok (PostMessage q m # t) = (command m = js ''updateContent'' \<and> messages_ok t)"
  "messages_ok (SetHtml q x # t) = messages_ok t"
  "messages_ok (Reveal q # t) = messages_ok t"
  "messages_ok (Dispose q # t) = messages_ok t"
  "messages_ok (CreateWebviewPanel q k # t) = messages_ok t"
  "messages_ok (ShowInformationMessage k # t) = messages_ok t"
  "messages_ok (ShowErrorMessage k # t) = messages_ok t"
  by (simp_all add: messages_ok_def)

lemma update_message_command: "command (update_message doc) = js ''updateContent''"
  by (simp add: update_message_def)

lemma update_messages_ok:
  "updateWebviewContent h p d f s = Inr s' \<Longrightarrow> messages_ok (trace s) \<Longrightarrow> messages_ok (trace s')"
  by (erule update_cases)
     (simp_all add: messages_ok_append messages_ok_simps update_message_command)

lemma dispose_messages_ok: "messages_ok (trace s) \<Longrightarrow> messages_ok (trace (dispose p s))"
  by (cases "panels s p")
     (simp_all add: dispose_not_live dispose_live messages_ok_append messages_ok_simps)

lemma showPreview_messages_ok:
  assumes "messages_ok (trace s)"
  shows "messages_ok (trace (showPreview h editor s))"
proof (cases editor)
  case None
  then show ?thesis using assms
    by (simp add: showPreview_no_editor messages_ok_append messages_ok_simps)
next
  case (Some d)
  show ?thesis
  proof (cases "documents s d")
    case None
    then show ?thesis using assms Some by (simp add: showPreview_no_object)
  next
    case doc: (Some doc)
    show ?thesis
    proof (cases "languageId doc = js ''html''")
      case False
      then show ?thesis using assms Some doc
        by (simp add: showPreview_not_html messages_ok_append messages_ok_simps)
    next
      case True
      show ?thesis
      proof (cases "map_of (previewPanels s) (documentKey h doc)")
        case None
        then show ?thesis using assms Some doc True
          by (simp add: showPreview_new messages_ok_append messages_ok_simps)
      next
        case p: (Some p)
        show ?thesis
        proof (cases "panels s p")
          case None
          then show ?thesis using assms Some doc True p
            by (simp add: showPreview_existing_disposed)
        next
          case (Some pn)
          then show ?thesis using assms \<open>editor = Some d\<close> doc True p
            by (simp add: showPreview_existing messages_ok_append messages_ok_simps
                update_message_command)
        qed
      qed
    qed
  qed
qed

lemma timeout_callback_messages_ok:
  "messages_ok (trace s) \<Longrightarrow> messages_ok (trace (timeout_callback h p d s))"
  by (auto simp: timeout_callback_def split: sum.splits dest: update_messages_ok)

lemma foldl_callbacks_messages_ok:
  "messages_ok (trace s) \<Longrightarrow>
   messages_ok (trace (foldl (\<lambda>s' (i, at, p, d). timeout_callback h p d s') s ts))"
  by (induction ts arbitrary: s) (auto simp: timeout_callback_messages_ok)

lemma fire_due_messages_ok: "messages_ok (trace s) \<Longrightarrow> messages_ok (trace (fire_due h t s))"
  by (simp add: fire_due_def Let_def foldl_callbacks_messages_ok)

lemma listener_messages_ok:
  "messages_ok (trace s) \<Longrightarrow> messages_ok (trace (onDidChangeViewState_listener h p k s))"
  by (auto simp: onDidChangeViewState_listener_def split: option.splits sum.splits
      dest: update_messages_ok)

lemma changeDocument_trace: "trace (changeDocumentSubscription h d s) = trace s"
  by (simp add: changeDocumentSubscription_def setTimeout_def clearTimeout_def Let_def
      split: option.splits)

lemma closeDocument_messages_ok:
  "messages_ok (trace s) \<Longrightarrow> messages_ok (trace (closeDocumentSubscription h d s))"
  by (auto simp: closeDocumentSubscription_def dispose_messages_ok split: option.splits)

lemma step_messages_ok: "messages_ok (trace s) \<Longrightarrow> messages_ok (trace (step h e s))"
proof (cases e)
  case (RunCommand editor)
  assume "messages_ok (trace s)"
  then show ?thesis using RunCommand
    by (auto simp: showPreview_messages_ok split: option.splits)
next
  case (ChangeViewState p v)
  assume "messages_ok (trace s)"
  then show ?thesis using ChangeViewState
    by (auto simp: Let_def listener_messages_ok split: option.splits)
qed (auto simp: changeDocument_trace closeDocument_messages_ok dispose_messages_ok
      fire_due_messages_ok split: option.splits)

lemma run_messages_ok: "messages_ok (trace s) \<Longrightarrow> messages_ok (trace (run h es s))"
  by (induction es arbitrary: s) (auto simp: step_messages_ok)

lemma example_documentKey: "documentKey example_host example_document = example_key"
  by (simp add: documentKey_def example_document_def example_host_def example_uri_def
      example_key_def js_def)

lemma example_state_eq:
  "example_state =
     \<lparr>previewPanels = [(example_key, 0)], updateTimeout = None,
      documents = [0 \<mapsto> example_document], textDocuments = [0], next_document = 1,
      panels = [0 \<mapsto> \<lparr>viewType = example_key,
                       webview_html = getWebviewHtml example_host 0 (js ''<p>a</p>'') (Some example_uri),
                       visible = True, onDidDispose = Some example_key,
                       onDidChangeViewState = Some example_key\<rparr>],
      next_panel = 1, timers = [], next_timer = 0, now = 0, random_calls = 32,
      trace = [CreateWebviewPanel 0 example_key,
               SetHtml 0 (getWebviewHtml example_host 0 (js ''<p>a</p>'') (Some example_uri))]\<rparr>"
proof -
  define s1 where "s1 = step example_host (OpenDocument example_uri (js ''html'') (js ''<p>a</p>'')) init"
  have s1: "s1 = init\<lparr>documents := [0 \<mapsto> example_document], textDocuments := [0],
                       next_document := 1\<rparr>"
    by (simp add: s1_def is_open_key_def init_def example_document_def)
  have d: "documents s1 0 = Some example_document" "languageId example_document = js ''html''"
    "map_of (previewPanels s1) (documentKey example_host example_document) = None"
    by (simp_all add: s1 init_def example_document_def)
  have "example_state = step example_host (RunCommand (Some 0)) s1"
    unfolding example_state_def run.simps s1_def [symmetric] ..
  also have "\<dots> = showPreview example_host (Some 0) s1"
    by (simp add: s1)
  also note showPreview_new [OF d]
  finally show ?thesis
    by (simp add: s1 init_def example_documentKey [unfolded example_document_def] page_of_def
        example_document_def)
qed

lemma example_lookup:
  "documents example_state 0 = Some example_document"
  "panels example_state 0 = Some \<lparr>viewType = example_key,
       webview_html = getWebviewHtml example_host 0 (js ''<p>a</p>'') (Some example_uri),
       visible = True, onDidDispose = Some example_key,
       onDidChangeViewState = Some example_key\<rparr>"
  by (simp_all add: example_state_eq)

text \<open>
  Claim C7. An update request for a panel that is not disposed rebuilds the host page
  (one assignment to \<open>panel.webview.html\<close>, of what \<open>getWebviewHtml\<close> builds from the text
  of the document) exactly when \<open>forceHtmlReset\<close> holds or the page of the panel is still
  empty; otherwise it posts exactly one message, \<open>{command: "updateContent", html}\<close> with
  the text of the document as it is. And whatever the editor's events, every message ever
  posted has the command \<open>updateContent\<close>.
\<close>

theorem update_dispatch:
  "(documents s d = Some doc \<and> panels s p = Some pn \<longrightarrow>
      updateWebviewContent h p d forceHtmlReset s =
        (if forceHtmlReset \<or> webview_html pn = []
         then Inr (s\<lparr>panels := (panels s)(p \<mapsto>
                        pn\<lparr>webview_html :=
                             getWebviewHtml h (random_calls s) (getText doc) (Some (doc_uri doc))\<rparr>),
                     random_calls := random_calls s + 32,
                     trace := trace s @
                       [SetHtml p
                          (getWebviewHtml h (random_calls s) (getText doc) (Some (doc_uri doc)))]\<rparr>)
         else Inr (s\<lparr>trace := trace s @
                       [PostMessage p \<lparr>command = js ''updateContent'', html = getText doc\<rparr>]\<rparr>)))
   \<and> (PostMessage q m \<in> set (trace (run h evs init)) \<longrightarrow> command m = js ''updateContent'')"
proof -
  have "messages_ok (trace (run h evs init))"
    by (rule run_messages_ok) (simp add: init_def messages_ok_simps)
  then have "PostMessage q m \<in> set (trace (run h evs init)) \<longrightarrow> command m = js ''updateContent''"
    using messages_ok_in by blast
  moreover have "updateWebviewContent h p d forceHtmlReset s =
        (if forceHtmlReset \<or> webview_html pn = []
         then Inr (s\<lparr>panels := (panels s)(p \<mapsto>
                        pn\<lparr>webview_html :=
                             getWebviewHtml h (random_calls s) (getText doc) (Some (doc_uri doc))\<rparr>),
                     random_calls := random_calls s + 32,
                     trace := trace s @
                       [SetHtml p
                          (getWebviewHtml h (random_calls s) (getText doc) (Some (doc_uri doc)))]\<rparr>)
         else Inr (s\<lparr>trace := trace s @
                       [PostMessage p \<lparr>command = js ''updateContent'', html = getText doc\<rparr>]\<rparr>))"
    if "documents s d = Some doc" "panels s p = Some pn"
    using update_rebuild [OF that, of forceHtmlReset h] update_incremental [OF that, of forceHtmlReset h]
    by (auto simp: page_of_def update_message_def)
  ultimately show ?thesis by blast
qed

theorem update_dispatch_witness:
  "updateWebviewContent example_host 0 0 False example_state =
      Inr (example_state\<lparr>trace := trace example_state @
             [PostMessage 0 \<lparr>command = js ''updateContent'', html = js ''<p>a</p>''\<rparr>]\<rparr>)
   \<and> updateWebviewContent example_host 0 0 True example_state =
      Inr (example_state\<lparr>panels := (panels example_state)(0 \<mapsto>
                \<lparr>viewType = example_key,
                 webview_html = getWebviewHtml example_host 32 (js ''<p>a</p>'') (Some example_uri),
                 visible = True, onDidDispose = Some example_key,
                 onDidChangeViewState = Some example_key\<rparr>),
             random_calls := 64,
             trace := trace example_state @
               [SetHtml 0 (getWebviewHtml example_host 32 (js ''<p>a</p>'') (Some example_uri))]\<rparr>)
   \<and> PostMessage 0 \<lparr>command = js ''updateContent'', html = js ''<p>a</p>''\<rparr>
       \<in> set (trace (run example_host
             [OpenDocument example_uri (js ''html'') (js ''<p>a</p>''), RunCommand (Some 0),
              RunCommand (Some 0)] init))
   \<and> command \<lparr>command = js ''updateContent'', html = js ''<p>a</p>''\<rparr> = js ''updateContent''"
proof -
  let ?pn = "\<lparr>viewType = example_key,
       webview_html = getWebviewHtml example_host 0 (js ''<p>a</p>'') (Some example_uri),
       visible = True, onDidDispose = Some example_key,
       onDidChangeViewState = Some example_key\<rparr>"
  let ?m = "\<lparr>command = js ''updateContent'', html = js ''<p>a</p>''\<rparr>"
  let ?evs = "[OpenDocument example_uri (js ''html'') (js ''<p>a</p>''), RunCommand (Some 0),
              RunCommand (Some 0)]"
  have r: "random_calls example_state = 32" "getText example_document = js ''<p>a</p>''"
    "doc_uri example_document = example_uri"
    by (simp_all add: example_state_eq example_document_def)
  have a: "updateWebviewContent example_host 0 0 False example_state =
      Inr (example_state\<lparr>trace := trace example_state @ [PostMessage 0 ?m]\<rparr>)"
    using update_dispatch [of example_state 0 example_document 0 ?pn example_host False 0 ?m "[]",
        THEN conjunct1] example_lookup
    by (simp add: getWebviewHtml_not_empty r)
  have b: "updateWebviewContent example_host 0 0 True example_state =
      Inr (example_state\<lparr>panels := (panels example_state)(0 \<mapsto>
                \<lparr>viewType = example_key,
                 webview_html = getWebviewHtml example_host 32 (js ''<p>a</p>'') (Some example_uri),
                 visible = True, onDidDispose = Some example_key,
                 onDidChangeViewState = Some example_key\<rparr>),
             random_calls := 64,
             trace := trace example_state @
               [SetHtml 0 (getWebviewHtml example_host 32 (js ''<p>a</p>'') (Some example_uri))]\<rparr>)"
    using update_dispatch [of example_state 0 example_document 0 ?pn example_host True 0 ?m "[]",
        THEN conjunct1] example_lookup
    by (simp add: r)
  have "run example_host ?evs init = step example_host (RunCommand (Some 0)) example_state"
    by (simp add: example_state_def)
  also have "\<dots> = showPreview example_host (Some 0) example_state"
    by (simp add: example_state_eq)
  also have "\<dots> = example_state\<lparr>trace := trace example_state @ [Reveal 0, PostMessage 0 ?m]\<rparr>"
    using showPreview_existing [of example_state 0 example_document example_host 0 ?pn]
      example_lookup example_documentKey
    by (simp add: example_document_def example_state_eq getWebviewHtml_not_empty update_message_def)
  finally have c: "PostMessage 0 ?m \<in> set (trace (run example_host ?evs init))" by simp
  from update_dispatch [of _ _ _ _ _ example_host _ 0 ?m ?evs, THEN conjunct2, THEN mp, OF c] a b c
  show ?thesis by simp
qed

section \<open>The panel registry\<close>

lemma registry_okI:
  assumes "distinct (map fst (previewPanels s))"
    "\<And>k p. map_of (previewPanels s) k = Some p \<Longrightarrow>
       \<exists>pn. panels s p = Some pn \<and> viewType pn = k \<and> onDidDispose pn = Some k
             \<and> webview_html pn \<noteq> []"
    "\<And>p pn. panels s p = Some pn \<Longrightarrow> map_of (previewPanels s) (viewType pn) = Some p"
    "\<And>p. next_panel s \<le> p \<Longrightarrow> panels s p = None"
  shows "registry_ok s"
  using assms unfolding registry_ok_def by blast

lemma registry_okD:
  assumes "registry_ok s"
  shows "distinct (map fst (previewPanels s))"
    "map_of (previewPanels s) k = Some p \<Longrightarrow>
       \<exists>pn. panels s p = Some pn \<and> viewType pn = k \<and> onDidDispose pn = Some k
             \<and> webview_html pn \<noteq> []"
    "panels s p = Some pn \<Longrightarrow> map_of (previewPanels s) (viewType pn) = Some p"
    "next_panel s \<le> p \<Longrightarrow> panels s p = None"
  using assms unfolding registry_ok_def by blast+

lemma registry_ok_cong:
  "previewPanels s' = previewPanels s \<Longrightarrow> panels s' = panels s \<Longrightarrow> next_panel s' = next_panel s \<Longrightarrow>
   registry_ok s' = registry_ok s"
  by (simp add: registry_ok_def)

lemma registry_ok_init: "registry_ok init"
  by (simp add: registry_ok_def init_def)

text \<open>A panel whose page was replaced, or whose visibility changed.\<close>

lemma registry_ok_panel_update:
  assumes ok: "registry_ok s" and p: "panels s p = Some pn"
    and s': "previewPanels s' = previewPanels s" "next_panel s' = next_panel s"
      "panels s' = (panels s)(p \<mapsto> pn')"
    and pn': "viewType pn' = viewType pn" "onDidDispose pn' = onDidDispose pn"
      "webview_html pn \<noteq> [] \<longrightarrow> webview_html pn' \<noteq> []"
  shows "registry_ok s'"
proof (rule registry_okI)
  show "distinct (map fst (previewPanels s'))" using registry_okD(1) [OF ok] s' by simp
next
  fix k q
  assume "map_of (previewPanels s') k = Some q"
  then have "map_of (previewPanels s) k = Some q" using s' by simp
  from registry_okD(2) [OF ok this] obtain qn where
    q: "panels s q = Some qn" "viewType qn = k" "onDidDispose qn = Some k" "webview_html qn \<noteq> []"
    by blast
  show "\<exists>pn. panels s' q = Some pn \<and> viewType pn = k \<and> onDidDispose pn = Some k
             \<and> webview_html pn \<noteq> []"
  proof (cases "q = p")
    case True
    then show ?thesis using q p s' pn' by simp
  next
    case False
    then show ?thesis using q s' by simp
  qed
next
  fix q qn
  assume a: "panels s' q = Some qn"
  show "map_of (previewPanels s') (viewType qn) = Some q"
  proof (cases "q = p")
    case True
    then have "qn = pn'" using a s' by simp
    then show ?thesis using registry_okD(3) [OF ok p] True s' pn' by simp
  next
    case False
    then have "panels s q = Some qn" using a s' by simp
    then show ?thesis using registry_okD(3) [OF ok] s' by simp
  qed
next
  fix q
  assume "next_panel s' \<le> q"
  then have n: "panels s q = None" using registry_okD(4) [OF ok] s' by simp
  then have "q \<noteq> p" using p by auto
  then show "panels s' q = None" using n s' by simp
qed

lemma update_registry_ok:
  assumes "updateWebviewContent h p d f s = Inr s'" "registry_ok s"
  shows "registry_ok s'"
  using assms(1)
proof (cases rule: update_cases)
  case (1 doc pn)
  show ?thesis
    by (rule registry_ok_panel_update [OF assms(2) 1(2), where pn' = "pn\<lparr>webview_html := page_of h s doc\<rparr>"])
       (simp_all add: 1(4) page_of_not_empty)
next
  case (2 doc pn)
  then show ?thesis using assms(2) registry_ok_cong [of s' s] by simp
qed

lemma timeout_callback_registry_ok:
  "registry_ok s \<Longrightarrow> registry_ok (timeout_callback h p d s)"
proof -
  assume ok: "registry_ok s"
  show ?thesis
  proof (cases "updateWebviewContent h p d False s")
    case (Inl e)
    then show ?thesis using ok by (simp add: timeout_callback_def)
  next
    case (Inr s1)
    have "registry_ok (s1\<lparr>updateTimeout := None\<rparr>) = registry_ok s1"
      by (rule registry_ok_cong) simp_all
    then show ?thesis using update_registry_ok [OF Inr ok] Inr by (simp add: timeout_callback_def)
  qed
qed

lemma listener_registry_ok:
  "registry_ok s \<Longrightarrow> registry_ok (onDidChangeViewState_listener h p k s)"
  by (auto simp: onDidChangeViewState_listener_def split: option.splits sum.splits
      dest: update_registry_ok)

lemma dispose_registry_ok:
  assumes ok: "registry_ok s"
  shows "registry_ok (dispose p s)"
proof (cases "panels s p")
  case None
  then show ?thesis using ok by (simp add: dispose_not_live)
next
  case (Some pn)
  define k where "k = viewType pn"
  have m: "map_of (previewPanels s) k = Some p" using registry_okD(3) [OF ok Some] k_def by simp
  from registry_okD(2) [OF ok m] Some have od: "onDidDispose pn = Some k" by auto
  have e: "dispose p s = s\<lparr>previewPanels := AList.delete k (previewPanels s),
       panels := (panels s)(p := None), trace := trace s @ [Dispose p]\<rparr>"
    using dispose_live [OF Some] od by simp
  show ?thesis unfolding e
  proof (rule registry_okI)
    show "distinct (map fst (previewPanels (s\<lparr>previewPanels := AList.delete k (previewPanels s),
       panels := (panels s)(p := None), trace := trace s @ [Dispose p]\<rparr>)))"
      using registry_okD(1) [OF ok] by (simp add: distinct_delete)
  next
    fix k' q
    assume "map_of (previewPanels (s\<lparr>previewPanels := AList.delete k (previewPanels s),
       panels := (panels s)(p := None), trace := trace s @ [Dispose p]\<rparr>)) k' = Some q"
    then have a: "k' \<noteq> k" "map_of (previewPanels s) k' = Some q"
      by (auto simp: delete_conv' split: if_splits)
    from registry_okD(2) [OF ok a(2)] obtain qn where
      q: "panels s q = Some qn" "viewType qn = k'" "onDidDispose qn = Some k'" "webview_html qn \<noteq> []"
      by blast
    have "q \<noteq> p" using q Some a(1) k_def by auto
    then show "\<exists>pn. panels (s\<lparr>previewPanels := AList.delete k (previewPanels s),
       panels := (panels s)(p := None), trace := trace s @ [Dispose p]\<rparr>) q = Some pn
         \<and> viewType pn = k' \<and> onDidDispose pn = Some k' \<and> webview_html pn \<noteq> []"
      using q by simp
  next
    fix q qn
    assume "panels (s\<lparr>previewPanels := AList.delete k (previewPanels s),
       panels := (panels s)(p := None), trace := trace s @ [Dispose p]\<rparr>) q = Some qn"
    then have a: "q \<noteq> p" "panels s q = Some qn" by (auto split: if_splits)
    have b: "map_of (previewPanels s) (viewType qn) = Some q" by (rule registry_okD(3) [OF ok a(2)])
    then have "viewType qn \<noteq> k" using m a(1) by auto
    then show "map_of (previewPanels (s\<lparr>previewPanels := AList.delete k (previewPanels s),
       panels := (panels s)(p := None), trace := trace s @ [Dispose p]\<rparr>)) (viewType qn) = Some q"
      using b by (simp add: delete_conv')
  next
    fix q
    assume "next_panel (s\<lparr>previewPanels := AList.delete k (previewPanels s),
       panels := (panels s)(p := None), trace := trace s @ [Dispose p]\<rparr>) \<le> q"
    then show "panels (s\<lparr>previewPanels := AList.delete k (previewPanels s),
       panels := (panels s)(p := None), trace := trace s @ [Dispose p]\<rparr>) q = None"
      using registry_okD(4) [OF ok] by simp
  qed
qed

lemma showPreview_new_registry_ok:
  assumes ok: "registry_ok s" and d: "documents s d = Some doc" "languageId doc = js ''html''"
    "map_of (previewPanels s) (documentKey h doc) = None"
  shows "registry_ok (showPreview h (Some d) s)"
proof -
  define k where "k = documentKey h doc"
  define n where "n = next_panel s"
  define pn where "pn = \<lparr>viewType = k, webview_html = page_of h s doc, visible = True,
           onDidDispose = Some k, onDidChangeViewState = Some k\<rparr>"
  define s' where "s' = showPreview h (Some d) s"
  have f: "previewPanels s' = AList.update k n (previewPanels s)"
    "panels s' = (panels s)(n \<mapsto> pn)" "next_panel s' = Suc n"
    unfolding s'_def showPreview_new [OF d] k_def n_def pn_def by simp_all
  have nn: "panels s n = None" using registry_okD(4) [OF ok, of n] n_def by simp
  have kn: "map_of (previewPanels s) k = None" using d(3) k_def by simp
  show ?thesis unfolding s'_def [symmetric]
  proof (rule registry_okI)
    show "distinct (map fst (previewPanels s'))"
      using registry_okD(1) [OF ok] f by (simp add: distinct_update)
  next
    fix k' q
    assume a: "map_of (previewPanels s') k' = Some q"
    show "\<exists>pn. panels s' q = Some pn \<and> viewType pn = k' \<and> onDidDispose pn = Some k'
             \<and> webview_html pn \<noteq> []"
    proof (cases "k' = k")
      case True
      then have "q = n" using a f by (simp add: update_conv')
      then show ?thesis using True f pn_def page_of_not_empty by simp
    next
      case False
      then have m: "map_of (previewPanels s) k' = Some q" using a f by (simp add: update_conv')
      from registry_okD(2) [OF ok m] obtain qn where
        q: "panels s q = Some qn" "viewType qn = k'" "onDidDispose qn = Some k'"
           "webview_html qn \<noteq> []" by blast
      then have "q \<noteq> n" using nn by auto
      then show ?thesis using q f by simp
    qed
  next
    fix q qn
    assume a: "panels s' q = Some qn"
    show "map_of (previewPanels s') (viewType qn) = Some q"
    proof (cases "q = n")
      case True
      then have "qn = pn" using a f by simp
      then show ?thesis using True f pn_def by (simp add: update_conv')
    next
      case False
      then have b: "panels s q = Some qn" using a f by simp
      have c: "map_of (previewPanels s) (viewType qn) = Some q" by (rule registry_okD(3) [OF ok b])
      then have "viewType qn \<noteq> k" using kn by auto
      then show ?thesis using c f by (simp add: update_conv')
    qed
  next
    fix q
    assume "next_panel s' \<le> q"
    then have "next_panel s \<le> q" "q \<noteq> n" using f n_def by simp_all
    then show "panels s' q = None" using registry_okD(4) [OF ok, of q] f by simp
  qed
qed

lemma showPreview_registry_ok:
  assumes ok: "registry_ok s"
  shows "registry_ok (showPreview h editor s)"
proof (cases editor)
  case None
  have "registry_ok (showPreview h None s) = registry_ok s"
    by (rule registry_ok_cong) (simp_all add: showPreview_no_editor)
  then show ?thesis using ok None by simp
next
  case (Some d)
  show ?thesis
  proof (cases "documents s d")
    case None
    then show ?thesis using ok Some by (simp add: showPreview_no_object)
  next
    case doc: (Some doc)
    show ?thesis
    proof (cases "languageId doc = js ''html''")
      case False
      have "registry_ok (showPreview h (Some d) s) = registry_ok s"
        by (rule registry_ok_cong) (simp_all add: showPreview_not_html [OF doc False])
      then show ?thesis using ok Some by simp
    next
      case True
      show ?thesis
      proof (cases "map_of (previewPanels s) (documentKey h doc)")
        case None
        then show ?thesis using showPreview_new_registry_ok [OF ok doc True] Some by simp
      next
        case p: (Some p)
        from registry_okD(2) [OF ok p] obtain pn where
          pn: "panels s p = Some pn" "webview_html pn \<noteq> []" by blast
        have "registry_ok (showPreview h (Some d) s) = registry_ok s"
          by (rule registry_ok_cong) (simp_all add: showPreview_existing [OF doc True p pn(1)] pn(2))
        then show ?thesis using ok Some by simp
      qed
    qed
  qed
qed

lemma changeDocument_frame:
  "previewPanels (changeDocumentSubscription h d s) = previewPanels s"
  "panels (changeDocumentSubscription h d s) = panels s"
  "next_panel (changeDocumentSubscription h d s) = next_panel s"
  "documents (changeDocumentSubscription h d s) = documents s"
  "textDocuments (changeDocumentSubscription h d s) = textDocuments s"
  "trace (changeDocumentSubscription h d s) = trace s"
  "now (changeDocumentSubscription h d s) = now s"
  by (simp_all add: changeDocumentSubscription_def setTimeout_def clearTimeout_def Let_def
      split: option.splits)

lemma closeDocument_registry_ok:
  "registry_ok s \<Longrightarrow> registry_ok (closeDocumentSubscription h d s)"
  by (auto simp: closeDocumentSubscription_def dispose_registry_ok split: option.splits)

lemma foldl_callbacks_registry_ok:
  "registry_ok s \<Longrightarrow>
   registry_ok (foldl (\<lambda>s' (i, at, p, d). timeout_callback h p d s') s ts)"
  by (induction ts arbitrary: s) (auto simp: timeout_callback_registry_ok)

lemma fire_due_registry_ok:
  assumes "registry_ok s"
  shows "registry_ok (fire_due h t s)"
proof -
  have "registry_ok (s\<lparr>now := t, timers := filter (\<lambda>(i, at, p, d). \<not> at \<le> t) (timers s)\<rparr>)
          = registry_ok s"
    by (rule registry_ok_cong) simp_all
  then show ?thesis using assms by (simp add: fire_due_def Let_def foldl_callbacks_registry_ok)
qed

lemma step_registry_ok:
  assumes ok: "registry_ok s"
  shows "registry_ok (step h e s)"
proof (cases e)
  case (RunCommand editor)
  then show ?thesis using ok by (auto simp: showPreview_registry_ok split: option.splits)
next
  case (OpenDocument u lang content)
  have "registry_ok (step h (OpenDocument u lang content) s) = registry_ok s"
    by (rule registry_ok_cong) simp_all
  then show ?thesis using ok OpenDocument by simp
next
  case (ChangeDocument d content)
  have "registry_ok (step h (ChangeDocument d content) s) = registry_ok s"
    by (rule registry_ok_cong) (simp_all add: changeDocument_frame split: option.splits)
  then show ?thesis using ok ChangeDocument by simp
next
  case (CloseDocument d)
  have "registry_ok (s\<lparr>textDocuments := removeAll d (textDocuments s)\<rparr>) = registry_ok s"
    by (rule registry_ok_cong) simp_all
  then show ?thesis using ok CloseDocument by (simp add: closeDocument_registry_ok)
next
  case (ClosePanel p)
  then show ?thesis using ok by (simp add: dispose_registry_ok)
next
  case (ChangeViewState p v)
  show ?thesis
  proof (cases "panels s p")
    case None
    then show ?thesis using ok ChangeViewState by simp
  next
    case (Some pn)
    have "registry_ok (s\<lparr>panels := (panels s)(p \<mapsto> pn\<lparr>visible := v\<rparr>)\<rparr>)"
      by (rule registry_ok_panel_update [OF ok Some, where pn' = "pn\<lparr>visible := v\<rparr>"]) simp_all
    then show ?thesis using Some ChangeViewState
      by (simp add: Let_def listener_registry_ok split: option.splits)
  qed
next
  case (Elapse n)
  then show ?thesis using ok by (simp add: fire_due_registry_ok)
qed

lemma run_registry_ok: "registry_ok s \<Longrightarrow> registry_ok (run h es s)"
  by (induction es arbitrary: s) (auto simp: step_registry_ok)

lemma reachable_registry_ok: "registry_ok (run h es init)"
  by (rule run_registry_ok [OF registry_ok_init])

lemma one_panel_per_identity:
  assumes "registry_ok s" "panels s p = Some pn" "panels s q = Some qn" "viewType pn = viewType qn"
  shows "p = q"
  using registry_okD(3) [OF assms(1,2)] registry_okD(3) [OF assms(1,3)] assms(4) by simp

lemma preview_existing:
  assumes ok: "registry_ok s" and d: "documents s d = Some doc" "languageId doc = js ''html''"
    "map_of (previewPanels s) (documentKey h doc) = Some p"
  shows "showPreview h (Some d) s =
           s\<lparr>trace := trace s @
                [Reveal p, PostMessage p \<lparr>command = js ''updateContent'', html = getText doc\<rparr>]\<rparr>"
proof -
  from registry_okD(2) [OF ok d(3)] obtain pn where
    pn: "panels s p = Some pn" "webview_html pn \<noteq> []" by blast
  show ?thesis using showPreview_existing [OF d pn(1)] pn(2) by (simp add: update_message_def)
qed

lemma dispose_registered:
  assumes ok: "registry_ok s" and m: "map_of (previewPanels s) k = Some p"
  shows "dispose p s = s\<lparr>previewPanels := AList.delete k (previewPanels s),
       panels := (panels s)(p := None), trace := trace s @ [Dispose p]\<rparr>"
proof -
  from registry_okD(2) [OF ok m] obtain pn where
    pn: "panels s p = Some pn" "onDidDispose pn = Some k" by blast
  show ?thesis using dispose_live [OF pn(1)] pn(2) by simp
qed

lemma preview_after_dispose:
  assumes ok: "registry_ok s" and d: "documents s d = Some doc" "languageId doc = js ''html''"
    "map_of (previewPanels s) (documentKey h doc) = Some p"
  shows "map_of (previewPanels (dispose p s)) (documentKey h doc) = None"
    "panels (dispose p s) p = None"
    "map_of (previewPanels (showPreview h (Some d) (dispose p s))) (documentKey h doc)
       = Some (next_panel s)"
    "next_panel s \<noteq> p" "panels s (next_panel s) = None"
    "panels (showPreview h (Some d) (dispose p s)) p = None"
    "\<exists>pn. panels (showPreview h (Some d) (dispose p s)) (next_panel s) = Some pn"
    "trace (showPreview h (Some d) (dispose p s)) =
       trace s @ [Dispose p, CreateWebviewPanel (next_panel s) (documentKey h doc),
                  SetHtml (next_panel s)
                    (getWebviewHtml h (random_calls s) (getText doc) (Some (doc_uri doc)))]"
proof -
  define k where "k = documentKey h doc"
  define s1 where "s1 = dispose p s"
  have e: "s1 = s\<lparr>previewPanels := AList.delete k (previewPanels s),
       panels := (panels s)(p := None), trace := trace s @ [Dispose p]\<rparr>"
    using dispose_registered [OF ok d(3)] by (simp add: s1_def k_def)
  have d1: "documents s1 d = Some doc" "map_of (previewPanels s1) (documentKey h doc) = None"
    using d(1) by (simp_all add: e delete_conv' k_def)
  note n = showPreview_new [OF d1(1) d(2) d1(2)]
  from registry_okD(2) [OF ok d(3)] have live: "panels s p \<noteq> None" by auto
  have np: "panels s (next_panel s) = None" using registry_okD(4) [OF ok, of "next_panel s"] by simp
  then have ne: "next_panel s \<noteq> p" using live by auto
  show "map_of (previewPanels (dispose p s)) (documentKey h doc) = None"
    using d1(2) by (simp add: s1_def)
  show "panels (dispose p s) p = None" by (simp add: s1_def [symmetric] e)
  show "map_of (previewPanels (showPreview h (Some d) (dispose p s))) (documentKey h doc)
       = Some (next_panel s)"
    unfolding s1_def [symmetric] n by (simp add: update_conv' e)
  show "next_panel s \<noteq> p" by (rule ne)
  show "panels s (next_panel s) = None" by (rule np)
  show "panels (showPreview h (Some d) (dispose p s)) p = None"
    unfolding s1_def [symmetric] n using ne by (simp add: e)
  show "\<exists>pn. panels (showPreview h (Some d) (dispose p s)) (next_panel s) = Some pn"
    unfolding s1_def [symmetric] n by (simp add: e)
  show "trace (showPreview h (Some d) (dispose p s)) =
       trace s @ [Dispose p, CreateWebviewPanel (next_panel s) (documentKey h doc),
                  SetHtml (next_panel s)
                    (getWebviewHtml h (random_calls s) (getText doc) (Some (doc_uri doc)))]"
    unfolding s1_def [symmetric] n by (simp add: e page_of_def)
qed

text \<open>
  Claim C4. In every state \<open>s\<close> the extension reaches: the keys of the registry are
  distinct, and two panels that are not disposed and were created for the same identity
  are one panel. A preview request for an identity that the registry holds reveals the
  registered panel and posts it the text of the document; nothing else of the state
  changes (no panel is created, the registry and the host page stay as they are). Disposing
  the registered panel removes the entry, and a preview request after that creates a panel
  with an identifier never used before and registers it; the disposed panel stays disposed.
\<close>

theorem registry_one_surface_per_identity:
  "s = run h evs init \<longrightarrow>
     distinct (map fst (previewPanels s))
     \<and> (panels s p = Some pn \<and> panels s q = Some qn \<and> viewType pn = viewType qn \<longrightarrow> p = q)
     \<and> (documents s d = Some doc \<and> languageId doc = js ''html''
          \<and> map_of (previewPanels s) (documentKey h doc) = Some r \<longrightarrow>
          showPreview h (Some d) s =
             s\<lparr>trace := trace s @
                  [Reveal r, PostMessage r \<lparr>command = js ''updateContent'', html = getText doc\<rparr>]\<rparr>
          \<and> map_of (previewPanels (dispose r s)) (documentKey h doc) = None
          \<and> panels (dispose r s) r = None
          \<and> map_of (previewPanels (showPreview h (Some d) (dispose r s))) (documentKey h doc)
               = Some (next_panel s)
          \<and> next_panel s \<noteq> r \<and> panels s (next_panel s) = None
          \<and> panels (showPreview h (Some d) (dispose r s)) r = None
          \<and> (\<exists>pn. panels (showPreview h (Some d) (dispose r s)) (next_panel s) = Some pn)
          \<and> trace (showPreview h (Some d) (dispose r s)) =
               trace s @ [Dispose r, CreateWebviewPanel (next_panel s) (documentKey h doc),
                  SetHtml (next_panel s)
                    (getWebviewHtml h (random_calls s) (getText doc) (Some (doc_uri doc)))])"
proof
  assume s: "s = run h evs init"
  have ok: "registry_ok s" unfolding s by (rule reachable_registry_ok)
  show "distinct (map fst (previewPanels s))
     \<and> (panels s p = Some pn \<and> panels s q = Some qn \<and> viewType pn = viewType qn \<longrightarrow> p = q)
     \<and> (documents s d = Some doc \<and> languageId doc = js ''html''
          \<and> map_of (previewPanels s) (documentKey h doc) = Some r \<longrightarrow>
          showPreview h (Some d) s =
             s\<lparr>trace := trace s @
                  [Reveal r, PostMessage r \<lparr>command = js ''updateContent'', html = getText doc\<rparr>]\<rparr>
          \<and> map_of (previewPanels (dispose r s)) (documentKey h doc) = None
          \<and> panels (dispose r s) r = None
          \<and> map_of (previewPanels (showPreview h (Some d) (dispose r s))) (documentKey h doc)
               = Some (next_panel s)
          \<and> next_panel s \<noteq> r \<and> panels s (next_panel s) = None
          \<and> panels (showPreview h (Some d) (dispose r s)) r = None
          \<and> (\<exists>pn. panels (showPreview h (Some d) (dispose r s)) (next_panel s) = Some pn)
          \<and> trace (showPreview h (Some d) (dispose r s)) =
               trace s @ [Dispose r, CreateWebviewPanel (next_panel s) (documentKey h doc),
                  SetHtml (next_panel s)
                    (getWebviewHtml h (random_calls s) (getText doc) (Some (doc_uri doc)))])"
    using registry_okD(1) [OF ok] one_panel_per_identity [OF ok, of p pn q qn]
      preview_existing [OF ok, of d doc h r] preview_after_dispose [OF ok, of d doc h r]
    by blast
qed

theorem registry_one_surface_per_identity_witness:
  "distinct (map fst (previewPanels example_state))
   \<and> map_of (previewPanels example_state) example_key = Some 0
   \<and> showPreview example_host (Some 0) example_state =
       example_state\<lparr>trace := trace example_state @
          [Reveal 0, PostMessage 0 \<lparr>command = js ''updateContent'', html = js ''<p>a</p>''\<rparr>]\<rparr>
   \<and> map_of (previewPanels (dispose 0 example_state)) example_key = None
   \<and> map_of (previewPanels (showPreview example_host (Some 0) (dispose 0 example_state))) example_key
       = Some 1
   \<and> trace (showPreview example_host (Some 0) (dispose 0 example_state)) =
       trace example_state @ [Dispose 0, CreateWebviewPanel 1 example_key,
          SetHtml 1 (getWebviewHtml example_host 32 (js ''<p>a</p>'') (Some example_uri))]"
proof -
  let ?pn = "\<lparr>viewType = example_key,
       webview_html = getWebviewHtml example_host 0 (js ''<p>a</p>'') (Some example_uri),
       visible = True, onDidDispose = Some example_key,
       onDidChangeViewState = Some example_key\<rparr>"
  have h: "documents example_state 0 = Some example_document"
    "languageId example_document = js ''html''"
    "map_of (previewPanels example_state) (documentKey example_host example_document) = Some 0"
    "next_panel example_state = 1" "random_calls example_state = 32"
    "getText example_document = js ''<p>a</p>''" "doc_uri example_document = example_uri"
    by (simp_all add: example_documentKey) (simp_all add: example_state_eq example_document_def)
  from registry_one_surface_per_identity
    [of example_state example_host
        "[OpenDocument example_uri (js ''html'') (js ''<p>a</p>''), RunCommand (Some 0)]"
        0 ?pn 0 ?pn 0 example_document 0, THEN mp, OF example_state_def] h
  show ?thesis by (simp add: example_documentKey)
qed

section \<open>The debounce timer\<close>

lemma timers_ok_init: "timers_ok h init"
  by (simp add: timers_ok_def init_def)

lemma timers_ok_kept:
  assumes "timers_ok h s" "kept s s'"
  shows "timers_ok h s'"
proof -
  have fresh: "\<forall>d. next_document s' \<le> d \<longrightarrow> documents s' d = None"
    using assms unfolding timers_ok_def kept_def by simp
  show ?thesis
  proof (cases "timers s = []")
    case True
    then show ?thesis using assms(2) fresh by (simp add: timers_ok_def kept_def)
  next
    case False
    with assms(1) obtain i at p d doc where
      t: "timers s = [(i, at, p, d)]" "updateTimeout s = Some i" "p < next_panel s"
         "documents s d = Some doc" "\<forall>pn. panels s p = Some pn \<longrightarrow> viewType pn = documentKey h doc"
      unfolding timers_ok_def by blast
    from assms(2) t(4) obtain doc' where
      d': "documents s' d = Some doc'" "doc_uri doc' = doc_uri doc"
      unfolding kept_def by blast
    have "\<forall>pn'. panels s' p = Some pn' \<longrightarrow> viewType pn' = documentKey h doc'"
    proof (intro allI impI)
      fix pn'
      assume "panels s' p = Some pn'"
      with assms(2) t(3) obtain pn where "panels s p = Some pn" "viewType pn = viewType pn'"
        unfolding kept_def by blast
      then show "viewType pn' = documentKey h doc'" using t(5) d'(2) by (simp add: documentKey_def)
    qed
    moreover have "timers s' = [(i, at, p, d)]" "updateTimeout s' = Some i" "p < next_panel s'"
      using assms(2) t(1-3) unfolding kept_def by simp_all
    ultimately show ?thesis using d'(1) fresh unfolding timers_ok_def by blast
  qed
qed

lemma kept_refl: "kept s s"
  by (simp add: kept_def)

lemma kept_trace: "kept s (s\<lparr>trace := t\<rparr>)"
  by (simp add: kept_def)

lemma kept_trans:
  assumes a: "kept s s1" and b: "kept s1 s2"
  shows "kept s s2"
proof -
  have "\<exists>pn. panels s p = Some pn \<and> viewType pn = viewType pn2"
    if "p < next_panel s" "panels s2 p = Some pn2" for p pn2
  proof -
    have "p < next_panel s1" using that(1) a by (simp add: kept_def)
    with b that(2) obtain pn1 where "panels s1 p = Some pn1" "viewType pn1 = viewType pn2"
      unfolding kept_def by blast
    with a that(1) show ?thesis unfolding kept_def by metis
  qed
  moreover have "\<exists>doc2. documents s2 d = Some doc2 \<and> doc_uri doc2 = doc_uri doc"
    if "documents s d = Some doc" for d doc
  proof -
    from a that obtain doc1 where "documents s1 d = Some doc1" "doc_uri doc1 = doc_uri doc"
      unfolding kept_def by blast
    with b show ?thesis unfolding kept_def by metis
  qed
  moreover have "timers s2 = timers s" "updateTimeout s2 = updateTimeout s"
    "next_panel s \<le> next_panel s2" "next_document s2 = next_document s"
    "\<forall>d. documents s d = None \<longrightarrow> documents s2 d = None"
    using a b by (simp_all add: kept_def)
  ultimately show ?thesis unfolding kept_def by blast
qed

lemma kept_panel_update:
  assumes "panels s p = Some pn" "viewType pn' = viewType pn"
    "timers s' = timers s" "updateTimeout s' = updateTimeout s" "next_panel s' = next_panel s"
    "documents s' = documents s" "panels s' = (panels s)(p \<mapsto> pn')"
    "next_document s' = next_document s"
  shows "kept s s'"
  using assms by (simp add: kept_def)

lemma update_kept:
  assumes "updateWebviewContent h p d f s = Inr s'"
  shows "kept s s'"
  using assms
proof (cases rule: update_cases)
  case (1 doc pn)
  show ?thesis
    by (rule kept_panel_update [OF 1(2), where pn' = "pn\<lparr>webview_html := page_of h s doc\<rparr>"])
       (simp_all add: 1(4))
next
  case (2 doc pn)
  then show ?thesis by (simp add: kept_trace)
qed

lemma dispose_kept: "kept s (dispose p s)"
proof (cases "panels s p")
  case None
  then show ?thesis by (simp add: dispose_not_live kept_refl)
next
  case (Some pn)
  show ?thesis unfolding dispose_live [OF Some] by (simp add: kept_def)
qed

lemma listener_kept: "kept s (onDidChangeViewState_listener h p k s)"
  by (auto simp: onDidChangeViewState_listener_def kept_refl split: option.splits sum.splits
      dest: update_kept)

lemma closeDocument_kept: "kept s (closeDocumentSubscription h d s)"
  by (auto simp: closeDocumentSubscription_def kept_refl dispose_kept split: option.splits)

lemma showPreview_kept: "kept s (showPreview h editor s)"
proof (cases editor)
  case None
  then show ?thesis by (simp add: showPreview_no_editor kept_trace)
next
  case (Some d)
  show ?thesis
  proof (cases "documents s d")
    case None
    then show ?thesis using Some by (simp add: showPreview_no_object kept_refl)
  next
    case doc: (Some doc)
    show ?thesis
    proof (cases "languageId doc = js ''html''")
      case False
      then show ?thesis using Some doc by (simp add: showPreview_not_html kept_trace)
    next
      case True
      show ?thesis
      proof (cases "map_of (previewPanels s) (documentKey h doc)")
        case None
        show ?thesis unfolding Some showPreview_new [OF doc True None] by (simp add: kept_def)
      next
        case p: (Some p)
        show ?thesis
        proof (cases "panels s p")
          case None
          then show ?thesis using Some doc True p
            by (simp add: showPreview_existing_disposed kept_refl)
        next
          case pn: (Some pn)
          show ?thesis
          proof (cases "webview_html pn = []")
            case True
            have "kept s (s\<lparr>panels := (panels s)(p \<mapsto> pn\<lparr>webview_html := page_of h s doc\<rparr>),
                 random_calls := random_calls s + 32,
                 trace := trace s @ [Reveal p, SetHtml p (page_of h s doc)]\<rparr>)"
              by (rule kept_panel_update [OF pn, where pn' = "pn\<lparr>webview_html := page_of h s doc\<rparr>"])
                 simp_all
            then show ?thesis using Some showPreview_existing [OF doc \<open>languageId doc = js ''html''\<close> p pn] True
              by simp
          next
            case False
            then show ?thesis using Some showPreview_existing [OF doc True p pn]
              by (simp add: kept_trace)
          qed
        qed
      qed
    qed
  qed
qed

lemma timers_ok_cleared:
  assumes "timers_ok h s"
  shows "(case updateTimeout s of
            None \<Rightarrow> timers s
          | Some t \<Rightarrow> filter (\<lambda>(i, at, p, d). i \<noteq> t) (timers s)) = []"
proof (cases "timers s = []")
  case True
  then show ?thesis by (simp split: option.splits)
next
  case False
  with assms obtain i at p d where "timers s = [(i, at, p, d)]" "updateTimeout s = Some i"
    unfolding timers_ok_def by blast
  then show ?thesis by simp
qed

lemma edit_schedules:
  assumes tk: "timers_ok h s" and d: "documents s d = Some doc" "languageId doc = js ''html''"
    "map_of (previewPanels s) (documentKey h doc) = Some p"
  shows "changeDocumentSubscription h d s =
     s\<lparr>updateTimeout := Some (next_timer s),
       timers := [(next_timer s, now s + 300, p, d)],
       next_timer := Suc (next_timer s)\<rparr>"
  using changeDocument_qualifying [OF d(1,3,2)] timers_ok_cleared [OF tk] by simp

lemma changeDocument_timers_ok:
  assumes ok: "registry_ok s" and tk: "timers_ok h s"
  shows "timers_ok h (changeDocumentSubscription h d s)"
proof (cases "\<exists>doc p. documents s d = Some doc \<and> languageId doc = js ''html''
                 \<and> map_of (previewPanels s) (documentKey h doc) = Some p")
  case True
  then obtain doc p where d: "documents s d = Some doc" "languageId doc = js ''html''"
    "map_of (previewPanels s) (documentKey h doc) = Some p" by blast
  from registry_okD(2) [OF ok d(3)] obtain pn where
    pn: "panels s p = Some pn" "viewType pn = documentKey h doc" by blast
  have "\<not> next_panel s \<le> p" using registry_okD(4) [OF ok, of p] pn(1) by auto
  then have "p < next_panel s" by simp
  moreover have "\<forall>d. next_document s \<le> d \<longrightarrow> documents s d = None"
    using tk by (simp add: timers_ok_def)
  ultimately show ?thesis
    unfolding edit_schedules [OF tk d] timers_ok_def using d(1) pn by simp
next
  case False
  then have "changeDocumentSubscription h d s = s"
    by (intro changeDocument_other) (cases "documents s d"; auto)
  then show ?thesis using tk by simp
qed

lemma update_frame:
  assumes "updateWebviewContent h p d f s = Inr s'"
  shows "documents s' = documents s" "next_document s' = next_document s"
    "textDocuments s' = textDocuments s" "previewPanels s' = previewPanels s"
    "timers s' = timers s" "now s' = now s" "next_timer s' = next_timer s"
  using assms by (cases rule: update_cases; simp)+

lemma timeout_callback_frame:
  "documents (timeout_callback h p d s) = documents s"
  "next_document (timeout_callback h p d s) = next_document s"
  "textDocuments (timeout_callback h p d s) = textDocuments s"
  "previewPanels (timeout_callback h p d s) = previewPanels s"
  "timers (timeout_callback h p d s) = timers s"
  by (cases "updateWebviewContent h p d False s"; simp add: timeout_callback_def update_frame)+

lemma timeout_callback_timers:
  "timers s = [] \<Longrightarrow> timers (timeout_callback h p d s) = []"
  by (simp add: timeout_callback_frame)

lemma fire_due_timers_ok:
  assumes "timers_ok h s"
  shows "timers_ok h (fire_due h t s)"
proof (cases "timers s = []")
  case True
  then show ?thesis using assms by (simp add: fire_due_none timers_ok_def)
next
  case False
  with assms obtain i at p d where t: "timers s = [(i, at, p, d)]"
    unfolding timers_ok_def by blast
  show ?thesis
  proof (cases "at \<le> t")
    case True
    then show ?thesis using assms
      unfolding fire_due_one [OF t] by (simp add: timers_ok_def timeout_callback_frame)
  next
    case False
    have "kept s (s\<lparr>now := t, timers := [(i, at, p, d)]\<rparr>)" using t by (simp add: kept_def)
    then show ?thesis using False timers_ok_kept [OF assms] unfolding fire_due_one [OF t] by simp
  qed
qed

lemma step_timers_ok:
  assumes ok: "registry_ok s" and tk: "timers_ok h s"
  shows "timers_ok h (step h e s)"
proof (cases e)
  case (RunCommand editor)
  then show ?thesis using timers_ok_kept [OF tk showPreview_kept] tk
    by (auto split: option.splits)
next
  case (OpenDocument u lang content)
  have fresh: "\<forall>d. next_document s \<le> d \<longrightarrow> documents s d = None"
    using tk by (simp add: timers_ok_def)
  show ?thesis
  proof (cases "is_open_key h s (uri_toString h u)")
    case True
    then show ?thesis using tk OpenDocument by simp
  next
    case False
    define s' where "s' = step h (OpenDocument u lang content) s"
    have f: "timers s' = timers s" "updateTimeout s' = updateTimeout s"
      "next_panel s' = next_panel s" "panels s' = panels s"
      "next_document s' = Suc (next_document s)"
      "documents s' = (documents s)(next_document s \<mapsto>
          \<lparr>doc_uri = u, languageId = lang, getText = content\<rparr>)"
      using False by (simp_all add: s'_def)
    have n: "documents s (next_document s) = None" using fresh by simp
    have "timers s = [] \<or> (\<exists>i at p d doc. timers s = [(i, at, p, d)] \<and> updateTimeout s = Some i
               \<and> p < next_panel s \<and> documents s d = Some doc
               \<and> (\<forall>pn. panels s p = Some pn \<longrightarrow> viewType pn = documentKey h doc))"
      using tk by (simp add: timers_ok_def)
    then have "timers s' = [] \<or> (\<exists>i at p d doc. timers s' = [(i, at, p, d)]
               \<and> updateTimeout s' = Some i
               \<and> p < next_panel s' \<and> documents s' d = Some doc
               \<and> (\<forall>pn. panels s' p = Some pn \<longrightarrow> viewType pn = documentKey h doc))"
    proof
      assume "timers s = []"
      then show ?thesis using f by simp
    next
      assume "\<exists>i at p d doc. timers s = [(i, at, p, d)] \<and> updateTimeout s = Some i
               \<and> p < next_panel s \<and> documents s d = Some doc
               \<and> (\<forall>pn. panels s p = Some pn \<longrightarrow> viewType pn = documentKey h doc)"
      then obtain i at p d doc where t: "timers s = [(i, at, p, d)]" "updateTimeout s = Some i"
        "p < next_panel s" "documents s d = Some doc"
        "\<forall>pn. panels s p = Some pn \<longrightarrow> viewType pn = documentKey h doc" by blast
      have "d \<noteq> next_document s" using t(4) n by auto
      then have "documents s' d = Some doc" using t(4) f by simp
      then show ?thesis using t f by simp
    qed
    moreover have "\<forall>d. next_document s' \<le> d \<longrightarrow> documents s' d = None"
      using fresh f by simp
    ultimately have "timers_ok h s'" unfolding timers_ok_def by blast
    then show ?thesis using OpenDocument by (simp only: s'_def)
  qed
next
  case (ChangeDocument d content)
  show ?thesis
  proof (cases "d \<in> set (textDocuments s) \<and> documents s d \<noteq> None")
    case False
    then show ?thesis using tk ChangeDocument by (auto split: option.splits)
  next
    case True
    then obtain doc where doc: "documents s d = Some doc" by blast
    define s0 where "s0 = s\<lparr>documents := (documents s)(d \<mapsto> doc\<lparr>getText := content\<rparr>)\<rparr>"
    have "kept s s0" using doc by (simp add: kept_def s0_def)
    then have t0: "timers_ok h s0" by (rule timers_ok_kept [OF tk])
    have "registry_ok s0 = registry_ok s" by (rule registry_ok_cong) (simp_all add: s0_def)
    then have r0: "registry_ok s0" using ok by simp
    show ?thesis using changeDocument_timers_ok [OF r0 t0] True doc ChangeDocument
      by (simp add: s0_def)
  qed
next
  case (CloseDocument d)
  have "kept s (s\<lparr>textDocuments := removeAll d (textDocuments s)\<rparr>)" by (simp add: kept_def)
  from kept_trans [OF this closeDocument_kept]
  show ?thesis using timers_ok_kept [OF tk] tk CloseDocument by simp
next
  case (ClosePanel p)
  then show ?thesis using timers_ok_kept [OF tk dispose_kept] by simp
next
  case (ChangeViewState p v)
  show ?thesis
  proof (cases "panels s p")
    case None
    then show ?thesis using tk ChangeViewState by simp
  next
    case (Some pn)
    have k1: "kept s (s\<lparr>panels := (panels s)(p \<mapsto> pn\<lparr>visible := v\<rparr>)\<rparr>)"
      by (rule kept_panel_update [OF Some, where pn' = "pn\<lparr>visible := v\<rparr>"]) simp_all
    show ?thesis
    proof (cases "onDidChangeViewState pn")
      case None
      then show ?thesis using timers_ok_kept [OF tk k1] Some ChangeViewState by simp
    next
      case k: (Some k)
      from kept_trans [OF k1 listener_kept]
      show ?thesis using timers_ok_kept [OF tk] Some ChangeViewState k by simp
    qed
  qed
next
  case (Elapse n)
  then show ?thesis using fire_due_timers_ok [OF tk] by simp
qed

lemma run_invariants:
  "registry_ok s \<Longrightarrow> timers_ok h s \<Longrightarrow>
   registry_ok (run h es s) \<and> timers_ok h (run h es s)"
  by (induction es arbitrary: s) (simp_all add: step_registry_ok step_timers_ok)

lemma reachable_timers_ok: "timers_ok h (run h es init)"
  using run_invariants [OF registry_ok_init timers_ok_init] by blast

lemma run_append: "run h (es @ fs) s = run h fs (run h es s)"
  by (induction es arbitrary: s) simp_all

lemma edit_step:
  assumes tk: "timers_ok h s" and q: "qualifies h s d p" and doc: "documents s d = Some doc"
  shows "step h (ChangeDocument d x) s =
     s\<lparr>documents := (documents s)(d \<mapsto> doc\<lparr>getText := x\<rparr>),
       updateTimeout := Some (next_timer s),
       timers := [(next_timer s, now s + 300, p, d)],
       next_timer := Suc (next_timer s)\<rparr>"
proof -
  define s0 where "s0 = s\<lparr>documents := (documents s)(d \<mapsto> doc\<lparr>getText := x\<rparr>)\<rparr>"
  have "kept s s0" using doc by (simp add: kept_def s0_def)
  then have t0: "timers_ok h s0" by (rule timers_ok_kept [OF tk])
  have d0: "documents s0 d = Some (doc\<lparr>getText := x\<rparr>)" "languageId (doc\<lparr>getText := x\<rparr>) = js ''html''"
    "map_of (previewPanels s0) (documentKey h (doc\<lparr>getText := x\<rparr>)) = Some p"
    using q doc by (simp_all add: s0_def qualifies_def documentKey_def)
  have "step h (ChangeDocument d x) s = changeDocumentSubscription h d s0"
    using q doc by (simp add: qualifies_def s0_def)
  also note edit_schedules [OF t0 d0]
  finally show ?thesis by (simp add: s0_def)
qed

lemma quiet_block:
  assumes tk: "timers_ok h s" and q: "qualifies h s d p" and doc: "documents s d = Some doc"
    and g: "g < 300"
  shows "run h [ChangeDocument d x, Elapse g] s =
     s\<lparr>documents := (documents s)(d \<mapsto> doc\<lparr>getText := x\<rparr>),
       updateTimeout := Some (next_timer s),
       next_timer := Suc (next_timer s),
       now := now s + g,
       timers := [(next_timer s, now s + 300, p, d)]\<rparr>"
proof -
  define s1 where "s1 = step h (ChangeDocument d x) s"
  have e: "s1 = s\<lparr>documents := (documents s)(d \<mapsto> doc\<lparr>getText := x\<rparr>),
       updateTimeout := Some (next_timer s),
       timers := [(next_timer s, now s + 300, p, d)],
       next_timer := Suc (next_timer s)\<rparr>"
    unfolding s1_def by (rule edit_step [OF tk q doc])
  have t: "timers s1 = [(next_timer s, now s + 300, p, d)]" "now s1 = now s" by (simp_all add: e)
  have "run h [ChangeDocument d x, Elapse g] s = fire_due h (now s1 + g) s1"
    by (simp add: s1_def)
  also have "\<dots> = s1\<lparr>now := now s + g, timers := [(next_timer s, now s + 300, p, d)]\<rparr>"
    using fire_due_one [OF t(1), of h "now s1 + g"] g t(2) by simp
  finally show ?thesis by (simp add: e)
qed

lemma firing_block:
  assumes ok: "registry_ok s" and tk: "timers_ok h s" and q: "qualifies h s d p"
    and m: "300 \<le> m"
  shows "trace (run h [ChangeDocument d x, Elapse m] s) =
           trace s @ [PostMessage p \<lparr>command = js ''updateContent'', html = x\<rparr>]"
proof -
  from q obtain doc where doc: "documents s d = Some doc" "languageId doc = js ''html''"
    "map_of (previewPanels s) (documentKey h doc) = Some p"
    unfolding qualifies_def by blast
  from registry_okD(2) [OF ok doc(3)] obtain pn where
    pn: "panels s p = Some pn" "webview_html pn \<noteq> []" by blast
  define s1 where "s1 = step h (ChangeDocument d x) s"
  have e: "s1 = s\<lparr>documents := (documents s)(d \<mapsto> doc\<lparr>getText := x\<rparr>),
       updateTimeout := Some (next_timer s),
       timers := [(next_timer s, now s + 300, p, d)],
       next_timer := Suc (next_timer s)\<rparr>"
    unfolding s1_def by (rule edit_step [OF tk q doc(1)])
  have t: "timers s1 = [(next_timer s, now s + 300, p, d)]" "now s1 = now s" by (simp_all add: e)
  define s2 where "s2 = s1\<lparr>now := now s1 + m, timers := []\<rparr>"
  have l: "documents s2 d = Some (doc\<lparr>getText := x\<rparr>)" "panels s2 p = Some pn"
    using pn by (simp_all add: s2_def e)
  have "run h [ChangeDocument d x, Elapse m] s = fire_due h (now s1 + m) s1"
    by (simp add: s1_def)
  also have "\<dots> = timeout_callback h p d s2"
    using fire_due_one [OF t(1), of h "now s1 + m"] m t(2) by (simp add: s2_def)
  finally have "trace (run h [ChangeDocument d x, Elapse m] s) = trace (timeout_callback h p d s2)"
    by simp
  also have "\<dots> = trace s2 @ [PostMessage p (update_message (doc\<lparr>getText := x\<rparr>))]"
    using timeout_callback_live [OF l, of h] pn(2) by simp
  finally show ?thesis by (simp add: s2_def e update_message_def)
qed

lemma quiet_block_qualifies:
  assumes tk: "timers_ok h s" and q: "qualifies h s d p" and g: "g < 300"
    and q2: "qualifies h s d2 p2"
  shows "qualifies h (run h [ChangeDocument d x, Elapse g] s) d2 p2"
    and "trace (run h [ChangeDocument d x, Elapse g] s) = trace s"
proof -
  from q obtain doc where doc: "documents s d = Some doc" unfolding qualifies_def by blast
  note e = quiet_block [OF tk q doc g, of x]
  show "trace (run h [ChangeDocument d x, Elapse g] s) = trace s" unfolding e by simp
  from q2 obtain doc2 where d2: "d2 \<in> set (textDocuments s)" "documents s d2 = Some doc2"
    "languageId doc2 = js ''html''" "map_of (previewPanels s) (documentKey h doc2) = Some p2"
    unfolding qualifies_def by blast
  show "qualifies h (run h [ChangeDocument d x, Elapse g] s) d2 p2"
  proof (cases "d2 = d")
    case True
    then have "doc2 = doc" using d2(2) doc by simp
    then show ?thesis unfolding e qualifies_def using d2 True by (simp add: documentKey_def)
  next
    case False
    then show ?thesis unfolding e qualifies_def using d2 by simp
  qed
qed

lemma burst_quiet:
  assumes "registry_ok s" "timers_ok h s"
    "\<forall>e \<in> set es. \<exists>p'. qualifies h s (fst e) p' \<and> snd (snd e) < 300"
    "qualifies h s d p"
  shows "trace (run h (burst es) s) = trace s \<and> qualifies h (run h (burst es) s) d p
         \<and> registry_ok (run h (burst es) s) \<and> timers_ok h (run h (burst es) s)"
  using assms
proof (induction es arbitrary: s)
  case Nil
  then show ?case by simp
next
  case (Cons e es)
  obtain d1 x1 g1 where e: "e = (d1, x1, g1)" by (cases e)
  from Cons.prems(3) e obtain p1 where q1: "qualifies h s d1 p1" and g1: "g1 < 300" by auto
  define s' where "s' = run h [ChangeDocument d1 x1, Elapse g1] s"
  have inv: "registry_ok s'" "timers_ok h s'"
    unfolding s'_def using run_invariants [OF Cons.prems(1,2)] by blast+
  have tr: "trace s' = trace s"
    unfolding s'_def by (rule quiet_block_qualifies(2) [OF Cons.prems(2) q1 g1 q1])
  have qd: "qualifies h s' d p"
    unfolding s'_def by (rule quiet_block_qualifies(1) [OF Cons.prems(2) q1 g1 Cons.prems(4)])
  have qs: "\<forall>e \<in> set es. \<exists>p'. qualifies h s' (fst e) p' \<and> snd (snd e) < 300"
  proof
    fix e'
    assume "e' \<in> set es"
    with Cons.prems(3) obtain p' where "qualifies h s (fst e') p'" "snd (snd e') < 300" by auto
    then show "\<exists>p'. qualifies h s' (fst e') p' \<and> snd (snd e') < 300"
      using quiet_block_qualifies(1) [OF Cons.prems(2) q1 g1, of "fst e'" p' x1] s'_def by blast
  qed
  have "run h (burst (e # es)) s = run h (burst es) s'"
    by (simp add: e s'_def)
  then show ?case using Cons.IH [OF inv qs qd] tr by simp
qed

lemma dispatches_to_append:
  "dispatches_to p (t @ u) = dispatches_to p t @ dispatches_to p u"
  by (simp add: dispatches_to_def)

lemma dispatches_to_other:
  "q \<noteq> p \<Longrightarrow> dispatches_to q [SetHtml p x] = []"
  "q \<noteq> p \<Longrightarrow> dispatches_to q [PostMessage p m] = []"
  by (simp_all add: dispatches_to_def)

lemma callback_other_panel:
  assumes "q \<noteq> p"
  shows "dispatches_to q (trace (timeout_callback h p d s)) = dispatches_to q (trace s)"
proof (cases "updateWebviewContent h p d False s")
  case (Inl e)
  then show ?thesis by (simp add: timeout_callback_def)
next
  case (Inr s1)
  then have "dispatches_to q (trace s1) = dispatches_to q (trace s)"
    using assms by (cases rule: update_cases) (simp_all add: dispatches_to_append dispatches_to_other)
  then show ?thesis using Inr by (simp add: timeout_callback_def)
qed

lemma callback_same_trace:
  assumes "documents s' d = documents s d" "panels s' p = panels s p"
    "random_calls s' = random_calls s" "trace s' = trace s"
  shows "trace (timeout_callback h p d s') = trace (timeout_callback h p d s)"
proof (cases "documents s d = None \<or> panels s p = None")
  case True
  then show ?thesis using assms timeout_callback_thrown [of s d p h] timeout_callback_thrown [of s' d p h]
    by auto
next
  case False
  then obtain doc pn where l: "documents s d = Some doc" "panels s p = Some pn" by auto
  then have l': "documents s' d = Some doc" "panels s' p = Some pn" using assms by simp_all
  show ?thesis
    unfolding timeout_callback_live [OF l] timeout_callback_live [OF l'] using assms
    by (simp add: page_of_def)
qed

lemma no_cross_dispatch:
  assumes ok: "registry_ok s" and tk: "timers_ok h s"
    and d1: "documents s d1 = Some doc1" and p2: "panels s p2 = Some pn2"
    and ne: "viewType pn2 \<noteq> documentKey h doc1"
  shows "dispatches_to p2 (trace (run h [ChangeDocument d1 x, Elapse m] s)) = dispatches_to p2 (trace s)
       \<or> dispatches_to p2 (trace (run h [ChangeDocument d1 x, Elapse m] s))
           = dispatches_to p2 (trace (run h [Elapse m] s))"
proof (cases "\<exists>p1. qualifies h s d1 p1")
  case True
  then obtain p1 where q: "qualifies h s d1 p1" ..
  then have m1: "map_of (previewPanels s) (documentKey h doc1) = Some p1"
    using d1 by (simp add: qualifies_def)
  from registry_okD(2) [OF ok m1] p2 ne have pp: "p2 \<noteq> p1" by auto
  define s1 where "s1 = step h (ChangeDocument d1 x) s"
  have e: "s1 = s\<lparr>documents := (documents s)(d1 \<mapsto> doc1\<lparr>getText := x\<rparr>),
       updateTimeout := Some (next_timer s),
       timers := [(next_timer s, now s + 300, p1, d1)],
       next_timer := Suc (next_timer s)\<rparr>"
    unfolding s1_def by (rule edit_step [OF tk q d1])
  have t: "timers s1 = [(next_timer s, now s + 300, p1, d1)]" "trace s1 = trace s"
    by (simp_all add: e)
  have r: "run h [ChangeDocument d1 x, Elapse m] s = fire_due h (now s1 + m) s1"
    by (simp add: s1_def)
  have "dispatches_to p2 (trace (fire_due h (now s1 + m) s1)) = dispatches_to p2 (trace s1)"
    unfolding fire_due_one [OF t(1)] using callback_other_panel [OF pp] by simp
  then show ?thesis using r t(2) by simp
next
  case False
  define s0 where "s0 = s\<lparr>documents := (documents s)(d1 \<mapsto> doc1\<lparr>getText := x\<rparr>)\<rparr>"
  show ?thesis
  proof (cases "d1 \<in> set (textDocuments s)")
    case out: False
    then have "run h [ChangeDocument d1 x, Elapse m] s = run h [Elapse m] s" by simp
    then show ?thesis by simp
  next
    case True
    then have nq: "map_of (previewPanels s) (documentKey h doc1) = None \<or> languageId doc1 \<noteq> js ''html''"
      using False d1 by (auto simp: qualifies_def)
    have "changeDocumentSubscription h d1 s0 = s0"
      by (rule changeDocument_other) (use nq in \<open>auto simp: s0_def documentKey_def\<close>)
    then have r: "run h [ChangeDocument d1 x, Elapse m] s = fire_due h (now s + m) s0"
      using True d1 by (simp add: s0_def)
    have r': "run h [Elapse m] s = fire_due h (now s + m) s" by simp
    show ?thesis
    proof (cases "timers s = []")
      case True
      then have "timers s0 = []" by (simp add: s0_def)
      then have "trace (fire_due h (now s + m) s0) = trace s" by (simp add: fire_due_none s0_def)
      then show ?thesis using r by simp
    next
      case False
      with tk obtain i at p d doc where
        t: "timers s = [(i, at, p, d)]" "documents s d = Some doc"
           "\<forall>pn. panels s p = Some pn \<longrightarrow> viewType pn = documentKey h doc"
        unfolding timers_ok_def by blast
      have t0: "timers s0 = [(i, at, p, d)]" using t(1) by (simp add: s0_def)
      show ?thesis
      proof (cases "at \<le> now s + m")
        case False
        then have "trace (fire_due h (now s + m) s0) = trace s"
          unfolding fire_due_one [OF t0] by (simp add: s0_def)
        then show ?thesis using r by simp
      next
        case due: True
        show ?thesis
        proof (cases "p = p2")
          case False
          then have "p2 \<noteq> p" by simp
          from callback_other_panel [OF this]
          have "dispatches_to p2 (trace (fire_due h (now s + m) s0)) = dispatches_to p2 (trace s)"
            unfolding fire_due_one [OF t0] using due by (simp add: s0_def)
          then show ?thesis using r by simp
        next
          case True
          then have "viewType pn2 = documentKey h doc" using t(3) p2 by simp
          then have "d \<noteq> d1" using ne t(2) d1 by auto
          then have "trace (timeout_callback h p d (s0\<lparr>now := now s + m, timers := []\<rparr>))
                     = trace (timeout_callback h p d (s\<lparr>now := now s + m, timers := []\<rparr>))"
            by (intro callback_same_trace) (simp_all add: s0_def)
          then have "trace (fire_due h (now s + m) s0) = trace (fire_due h (now s + m) s)"
            unfolding fire_due_one [OF t0] fire_due_one [OF t(1)] using due by simp
          then show ?thesis using r r' by simp
        qed
      qed
    qed
  qed
qed

lemma burst_then_quiet:
  assumes ok: "registry_ok s" and tk: "timers_ok h s"
    and es: "\<forall>e \<in> set es. \<exists>p'. qualifies h s (fst e) p' \<and> snd (snd e) < 300"
    and q: "qualifies h s d p" and m: "300 \<le> m"
  shows "trace (run h (burst es) s) = trace s"
    and "trace (run h (burst es @ [ChangeDocument d x, Elapse m]) s)
            = trace s @ [PostMessage p \<lparr>command = js ''updateContent'', html = x\<rparr>]"
proof -
  from burst_quiet [OF ok tk es q]
  have b: "trace (run h (burst es) s) = trace s" "qualifies h (run h (burst es) s) d p"
    "registry_ok (run h (burst es) s)" "timers_ok h (run h (burst es) s)" by blast+
  show "trace (run h (burst es) s) = trace s" by (rule b(1))
  show "trace (run h (burst es @ [ChangeDocument d x, Elapse m]) s)
            = trace s @ [PostMessage p \<lparr>command = js ''updateContent'', html = x\<rparr>]"
    using firing_block [OF b(3,4,2) m, of x] b(1) by (simp add: run_append)
qed

text \<open>
  The timer is one slot for all documents: an edit of another previewed document within
  the 300 ms replaces the pending timeout, and the first document gets no update.
\<close>

lemma pending_update_replaced_by_other_edit:
  assumes ok: "registry_ok s" and tk: "timers_ok h s"
    and a: "qualifies h s a pa" and b: "qualifies h s b pb" and g: "g < 300" and m: "300 \<le> m"
  shows "trace (run h [ChangeDocument a x, Elapse g, ChangeDocument b y, Elapse m] s)
           = trace s @ [PostMessage pb \<lparr>command = js ''updateContent'', html = y\<rparr>]"
proof -
  have "\<forall>e \<in> set [(a, x, g)]. \<exists>p'. qualifies h s (fst e) p' \<and> snd (snd e) < 300"
    using a g by auto
  from burst_quiet [OF ok tk this b]
  have q: "trace (run h (burst [(a, x, g)]) s) = trace s"
    "qualifies h (run h (burst [(a, x, g)]) s) b pb"
    "registry_ok (run h (burst [(a, x, g)]) s)" "timers_ok h (run h (burst [(a, x, g)]) s)"
    by blast+
  have "run h [ChangeDocument a x, Elapse g, ChangeDocument b y, Elapse m] s
          = run h [ChangeDocument b y, Elapse m] (run h (burst [(a, x, g)]) s)"
    by (simp only: burst.simps run.simps)
  then show ?thesis using firing_block [OF q(3,4,2) m, of y] q(1) by simp
qed

text \<open>
  Claim C3, as the code has it. The timer is one slot shared by all panels. In a state \<open>s\<close>
  that the extension reaches: (1) two edits of a document with a preview, less than 300 ms
  apart and followed by 300 ms or more without events, send nothing after the first edit
  and exactly one update after the second, a message with the text of the second edit;
  (2) in a series of edits of documents with a preview, be it the same document or several,
  each followed by a pause of less than 300 ms, no update is sent, and after a last edit
  and a pause of 300 ms or more exactly one update is sent, with the text of the last edit,
  to the panel of its document: the edits before it get none, those of other documents
  included; (3) after an edit of a document, the updates sent to a panel created for
  another identity are those sent before, or those that would be sent without the edit:
  the edit adds none.
\<close>

theorem debounce:
  "s = run h evs init \<longrightarrow>
     (qualifies h s d p \<and> n < 300 \<and> 300 \<le> m \<longrightarrow>
        trace (run h [ChangeDocument d x1, Elapse n] s) = trace s
        \<and> trace (run h [ChangeDocument d x1, Elapse n, ChangeDocument d x2, Elapse m] s)
            = trace s @ [PostMessage p \<lparr>command = js ''updateContent'', html = x2\<rparr>])
     \<and> ((\<forall>e \<in> set es. \<exists>p'. qualifies h s (fst e) p' \<and> snd (snd e) < 300)
          \<and> qualifies h s d p \<and> 300 \<le> m \<longrightarrow>
        trace (run h (burst es) s) = trace s
        \<and> trace (run h (burst es @ [ChangeDocument d x, Elapse m]) s)
            = trace s @ [PostMessage p \<lparr>command = js ''updateContent'', html = x\<rparr>])
     \<and> (documents s d1 = Some doc1 \<and> panels s p2 = Some pn2
          \<and> viewType pn2 \<noteq> documentKey h doc1 \<longrightarrow>
        dispatches_to p2 (trace (run h [ChangeDocument d1 y, Elapse k] s))
            = dispatches_to p2 (trace s)
        \<or> dispatches_to p2 (trace (run h [ChangeDocument d1 y, Elapse k] s))
            = dispatches_to p2 (trace (run h [Elapse k] s)))"
proof
  assume s: "s = run h evs init"
  have ok: "registry_ok s" unfolding s by (rule reachable_registry_ok)
  have tk: "timers_ok h s" unfolding s by (rule reachable_timers_ok)
  have b: "trace (run h (burst es') s) = trace s
        \<and> trace (run h (burst es' @ [ChangeDocument d x', Elapse m]) s)
            = trace s @ [PostMessage p \<lparr>command = js ''updateContent'', html = x'\<rparr>]"
    if "\<forall>e \<in> set es'. \<exists>p'. qualifies h s (fst e) p' \<and> snd (snd e) < 300"
      "qualifies h s d p" "300 \<le> m" for es' x'
  proof -
    from burst_quiet [OF ok tk that(1,2)]
    have q: "trace (run h (burst es') s) = trace s" "qualifies h (run h (burst es') s) d p"
      "registry_ok (run h (burst es') s)" "timers_ok h (run h (burst es') s)" by blast+
    show ?thesis using firing_block [OF q(3,4,2) that(3), of x'] q(1) by (simp add: run_append)
  qed
  have a: "trace (run h [ChangeDocument d x1, Elapse n] s) = trace s
        \<and> trace (run h [ChangeDocument d x1, Elapse n, ChangeDocument d x2, Elapse m] s)
            = trace s @ [PostMessage p \<lparr>command = js ''updateContent'', html = x2\<rparr>]"
    if "qualifies h s d p" "n < 300" "300 \<le> m"
  proof -
    have "\<forall>e \<in> set [(d, x1, n)]. \<exists>p'. qualifies h s (fst e) p' \<and> snd (snd e) < 300"
      using that by auto
    from b [OF this that(1,3), of x2] show ?thesis
      by (simp only: burst.simps append_Cons append_Nil)
  qed
  show "(qualifies h s d p \<and> n < 300 \<and> 300 \<le> m \<longrightarrow>
        trace (run h [ChangeDocument d x1, Elapse n] s) = trace s
        \<and> trace (run h [ChangeDocument d x1, Elapse n, ChangeDocument d x2, Elapse m] s)
            = trace s @ [PostMessage p \<lparr>command = js ''updateContent'', html = x2\<rparr>])
     \<and> ((\<forall>e \<in> set es. \<exists>p'. qualifies h s (fst e) p' \<and> snd (snd e) < 300)
          \<and> qualifies h s d p \<and> 300 \<le> m \<longrightarrow>
        trace (run h (burst es) s) = trace s
        \<and> trace (run h (burst es @ [ChangeDocument d x, Elapse m]) s)
            = trace s @ [PostMessage p \<lparr>command = js ''updateContent'', html = x\<rparr>])
     \<and> (documents s d1 = Some doc1 \<and> panels s p2 = Some pn2
          \<and> viewType pn2 \<noteq> documentKey h doc1 \<longrightarrow>
        dispatches_to p2 (trace (run h [ChangeDocument d1 y, Elapse k] s))
            = dispatches_to p2 (trace s)
        \<or> dispatches_to p2 (trace (run h [ChangeDocument d1 y, Elapse k] s))
            = dispatches_to p2 (trace (run h [Elapse k] s)))"
    using a b [of es x] no_cross_dispatch [OF ok tk, of d1 doc1 p2 pn2 y k] by blast
qed

lemma example_documentKey_2: "documentKey example_host example_document_2 = example_key_2"
  by (simp add: documentKey_def example_document_2_def example_host_def example_uri_2_def
      example_key_2_def js_def)

lemma example_keys_differ: "example_key_2 \<noteq> example_key"
  by (simp add: example_key_def example_key_2_def js_def)

lemma example_state_2_eq:
  "example_state_2 = example_state\<lparr>documents := (documents example_state)(1 \<mapsto> example_document_2),
             textDocuments := textDocuments example_state @ [1],
             next_document := 2\<rparr>"
proof -
  have k: "\<not> is_open_key example_host example_state (uri_toString example_host example_uri_2)"
    by (simp add: is_open_key_def example_state_eq example_documentKey)
       (simp add: example_key_def example_host_def example_uri_2_def js_def)
  have "example_state_2
          = step example_host (OpenDocument example_uri_2 (js ''html'') (js ''<p>o</p>'')) example_state"
    by (simp add: example_state_2_def example_state_def)
  then show ?thesis
    using k by (simp add: example_state_eq numeral_2_eq_2 example_document_2_def)
qed

lemma example_state_3_eq:
  "example_state_3 =
     example_state_2\<lparr>previewPanels := [(example_key, 0), (example_key_2, 1)],
       panels := (panels example_state_2)(1 \<mapsto>
          \<lparr>viewType = example_key_2, webview_html = page_of example_host example_state_2 example_document_2,
           visible = True, onDidDispose = Some example_key_2,
           onDidChangeViewState = Some example_key_2\<rparr>),
       next_panel := 2,
       random_calls := 64,
       trace := trace example_state_2 @ [CreateWebviewPanel 1 example_key_2,
                           SetHtml 1 (page_of example_host example_state_2 example_document_2)]\<rparr>"
proof -
  have d: "documents example_state_2 1 = Some example_document_2"
    "languageId example_document_2 = js ''html''"
    "map_of (previewPanels example_state_2) (documentKey example_host example_document_2) = None"
    using example_keys_differ
    by (simp_all add: example_state_2_eq example_state_eq example_documentKey_2)
       (simp add: example_document_2_def)
  have "example_state_3 = step example_host (RunCommand (Some 1)) example_state_2"
    by (simp add: example_state_3_def example_state_2_def)
  also have "\<dots> = showPreview example_host (Some 1) example_state_2"
    by (simp add: example_state_2_eq example_state_eq)
  also note showPreview_new [OF d]
  finally show ?thesis using example_keys_differ
    by (simp add: example_documentKey_2 example_state_2_eq example_state_eq numeral_2_eq_2)
qed

text \<open>In \<open>example_state_3\<close> each of the two documents has its own live panel.\<close>

lemma example_state_3_lookup:
  "qualifies example_host example_state_3 0 0"
  "qualifies example_host example_state_3 1 1"
  "documents example_state_3 1 = Some example_document_2"
  "panels example_state_3 0 = Some \<lparr>viewType = example_key,
       webview_html = getWebviewHtml example_host 0 (js ''<p>a</p>'') (Some example_uri),
       visible = True, onDidDispose = Some example_key,
       onDidChangeViewState = Some example_key\<rparr>"
  using example_keys_differ
  by (simp_all add: qualifies_def example_state_3_eq example_state_2_eq example_state_eq
      example_documentKey example_documentKey_2)
     (simp_all add: example_document_def example_document_2_def)

theorem debounce_witness:
  "trace (run example_host
       [ChangeDocument 0 (js ''<p>b</p>''), Elapse 100, ChangeDocument 0 (js ''<p>c</p>''), Elapse 300]
       example_state_3)
     = trace example_state_3 @ [PostMessage 0 \<lparr>command = js ''updateContent'', html = js ''<p>c</p>''\<rparr>]
   \<and> trace (run example_host
       (burst [(0, js ''<p>b</p>'', 100), (1, js ''<p>e</p>'', 299)]
          @ [ChangeDocument 0 (js ''<p>d</p>''), Elapse 300])
       example_state_3)
     = trace example_state_3 @ [PostMessage 0 \<lparr>command = js ''updateContent'', html = js ''<p>d</p>''\<rparr>]
   \<and> (dispatches_to 0 (trace (run example_host [ChangeDocument 1 (js ''<p>e</p>''), Elapse 300]
                                 example_state_3))
         = dispatches_to 0 (trace example_state_3)
       \<or> dispatches_to 0 (trace (run example_host [ChangeDocument 1 (js ''<p>e</p>''), Elapse 300]
                                 example_state_3))
         = dispatches_to 0 (trace (run example_host [Elapse 300] example_state_3)))"
proof -
  let ?pn = "\<lparr>viewType = example_key,
       webview_html = getWebviewHtml example_host 0 (js ''<p>a</p>'') (Some example_uri),
       visible = True, onDidDispose = Some example_key,
       onDidChangeViewState = Some example_key\<rparr>"
  note q = example_state_3_lookup(1)
  have ne: "viewType ?pn \<noteq> documentKey example_host example_document_2"
    using example_keys_differ by (simp add: example_documentKey_2)
  note i = debounce [of example_state_3 example_host
      "[OpenDocument example_uri (js ''html'') (js ''<p>a</p>''), RunCommand (Some 0),
        OpenDocument example_uri_2 (js ''html'') (js ''<p>o</p>''), RunCommand (Some 1)]"
      0 0 100 300 "js ''<p>b</p>''" "js ''<p>c</p>''"
      "[(0, js ''<p>b</p>'', 100), (1, js ''<p>e</p>'', 299)]" "js ''<p>d</p>''"
      1 example_document_2 0 ?pn "js ''<p>e</p>''" 300,
      THEN mp, OF example_state_3_def]
  have le: "(100::nat) < 300" "(300::nat) \<le> 300" by simp_all
  have qs: "\<forall>e \<in> set [(0, js ''<p>b</p>'', 100), (1, js ''<p>e</p>'', 299)].
              \<exists>p'. qualifies example_host example_state_3 (fst e) p' \<and> snd (snd e) < (300::nat)"
    using example_state_3_lookup(1,2) by auto
  note a = i [THEN conjunct1, THEN mp, OF conjI [OF q conjI [OF le]], THEN conjunct2]
  note b = i [THEN conjunct2, THEN conjunct1, THEN mp, OF conjI [OF qs conjI [OF q le(2)]],
      THEN conjunct2]
  from i [THEN conjunct2, THEN conjunct2, THEN mp,
      OF conjI [OF example_state_3_lookup(3) conjI [OF example_state_3_lookup(4) ne]]] a b
  show ?thesis by blast
qed

text \<open>
  The claim as the spec words it (one update for the document's own panel after two edits
  less than 300 ms apart) fails with two previews: an edit of the other document, 100 ms
  after the second edit, replaces the pending timeout, and the only update sent is the one
  for the other document. The panel of the document edited twice gets none.
\<close>

theorem debounce_two_previews_counterexample:
  "trace (run example_host
       [ChangeDocument 0 (js ''<p>b</p>''), Elapse 100, ChangeDocument 0 (js ''<p>c</p>''), Elapse 100,
        ChangeDocument 1 (js ''<p>e</p>''), Elapse 300]
       example_state_3)
     = trace example_state_3 @ [PostMessage 1 \<lparr>command = js ''updateContent'', html = js ''<p>e</p>''\<rparr>]
   \<and> dispatches_to 0 (trace (run example_host
       [ChangeDocument 0 (js ''<p>b</p>''), Elapse 100, ChangeDocument 0 (js ''<p>c</p>''), Elapse 100,
        ChangeDocument 1 (js ''<p>e</p>''), Elapse 300]
       example_state_3))
     = dispatches_to 0 (trace example_state_3)"
proof -
  have ok: "registry_ok example_state_3" unfolding example_state_3_def by (rule reachable_registry_ok)
  have tk: "timers_ok example_host example_state_3"
    unfolding example_state_3_def by (rule reachable_timers_ok)
  have es: "\<forall>e \<in> set [(0, js ''<p>b</p>'', 100), (0, js ''<p>c</p>'', 100)].
              \<exists>p'. qualifies example_host example_state_3 (fst e) p' \<and> snd (snd e) < (300::nat)"
    using example_state_3_lookup(1) by auto
  have m: "(300::nat) \<le> 300" by simp
  from burst_then_quiet(2) [OF ok tk es example_state_3_lookup(2) m, of "js ''<p>e</p>''"]
  have t: "trace (run example_host
       [ChangeDocument 0 (js ''<p>b</p>''), Elapse 100, ChangeDocument 0 (js ''<p>c</p>''), Elapse 100,
        ChangeDocument 1 (js ''<p>e</p>''), Elapse 300]
       example_state_3)
     = trace example_state_3 @ [PostMessage 1 \<lparr>command = js ''updateContent'', html = js ''<p>e</p>''\<rparr>]"
    by (simp only: burst.simps append_Cons append_Nil)
  have "dispatches_to 0 [PostMessage 1 \<lparr>command = js ''updateContent'', html = js ''<p>e</p>''\<rparr>] = []"
    by (simp add: dispatches_to_def)
  then show ?thesis unfolding t by (simp only: dispatches_to_append append_Nil2 simp_thms)
qed

end
